theory Spec2Isabelle
  imports Main "HOL-Library.Word"
begin


section \<open>JavaScript strings\<close>

text \<open>
  A JavaScript string is a sequence of 16-bit code units; \<open>length\<close>, \<open>substring\<close>,
  \<open>endsWith\<close> and \<open>trim\<close> all count and compare code units. \<open>js\<close> turns an
  ASCII literal into such a string.
\<close>

type_synonym js_char = "16 word"
type_synonym js_string = "js_char list"

definition js :: "string \<Rightarrow> js_string" where
  "js s = map (\<lambda>c. of_nat (of_char c)) s"

text \<open>
  \<open>sanitizeInput\<close> (app.js 21-26, hybrid variant 17-22) writes the string into the
  \<open>textContent\<close> of a fresh element and reads \<open>innerHTML\<close> back. The browser
  serialises a text node by replacing \<open>&\<close>, U+00A0, \<open><\<close> and \<open>>\<close> with their
  character references and leaving every other code unit as it is. The \<open>typeof\<close>
  guard passes non-strings through; titles, texts and summaries are strings here.
\<close>

definition escapeCodeUnit :: "js_char \<Rightarrow> js_string" where
  "escapeCodeUnit c =
     (if c = 0x26 then js ''&amp;''
      else if c = 0xA0 then js ''&nbsp;''
      else if c = 0x3C then js ''&lt;''
      else if c = 0x3E then js ''&gt;''
      else [c])"

definition sanitizeInput :: "js_string \<Rightarrow> js_string" where
  "sanitizeInput input = concat (map escapeCodeUnit input)"

section \<open>Notes and the object store\<close>

text \<open>
  The \<open>summary\<close> property exists only in the hybrid variant; there it is \<open>null\<close> or a
  string. The other variant never sets it, so a note can also lack the property.
\<close>

datatype js_summary = Undefined | Null | Str js_string

fun truthy_summary :: "js_summary \<Rightarrow> bool" where
  "truthy_summary (Str s) = (s \<noteq> [])"
| "truthy_summary _ = False"

record Note =
  note_id :: "nat option"
  title :: js_string
  note_text :: js_string
  summary :: js_summary
  language :: js_string
  timestamp :: nat
  tags :: "js_string list"

text \<open>\<open>note.id\<close> used as a condition: \<open>null\<close>, a missing property and \<open>0\<close> are falsy.\<close>

fun truthy_id :: "nat option \<Rightarrow> bool" where
  "truthy_id None = False"
| "truthy_id (Some n) = (n \<noteq> 0)"

text \<open>
  The object store \<open>notes\<close> is created with \<open>keyPath: 'id', autoIncrement: true\<close>
  (\<open>initDB\<close>). The browser keeps its records in ascending key order and owns a key
  generator that starts at 1. \<open>add\<close> of a value without an id takes the generator's
  current number as the key, writes it into the value's \<open>id\<close> and advances the
  generator; \<open>put\<close> of a value with an id stores it under that key, replacing a record
  already there, and moves the generator past the key when the key is not below it;
  \<open>delete\<close> removes the record of a key when there is one; \<open>getAll\<close> lists the
  values in ascending key order.
\<close>

record object_store =
  records :: "(nat \<times> Note) list"
  keyGenerator :: nat

datatype storage_error = DbNotOpen | ConstraintError

fun put_record :: "nat \<Rightarrow> Note \<Rightarrow> (nat \<times> Note) list \<Rightarrow> (nat \<times> Note) list" where
  "put_record k v [] = [(k, v)]"
| "put_record k v ((k', v') # rs) =
     (if k < k' then (k, v) # (k', v') # rs
      else if k = k' then (k, v) # rs
      else (k', v') # put_record k v rs)"

definition store_add :: "Note \<Rightarrow> object_store \<Rightarrow> storage_error + (nat \<times> object_store)" where
  "store_add v st =
     (let k = keyGenerator st in
      if k \<in> fst ` set (records st) then Inl ConstraintError
      else Inr (k, \<lparr>records = put_record k (v\<lparr>note_id := Some k\<rparr>) (records st),
                     keyGenerator = Suc k\<rparr>))"

definition store_put :: "nat \<Rightarrow> Note \<Rightarrow> object_store \<Rightarrow> nat \<times> object_store" where
  "store_put k v st =
     (k, \<lparr>records = put_record k v (records st),
          keyGenerator = (if keyGenerator st \<le> k then Suc k else keyGenerator st)\<rparr>)"

definition store_delete :: "nat \<Rightarrow> object_store \<Rightarrow> object_store" where
  "store_delete k st = st\<lparr>records := filter (\<lambda>r. fst r \<noteq> k) (records st)\<rparr>"

definition store_getAll :: "object_store \<Rightarrow> Note list" where
  "store_getAll st = map snd (records st)"

definition store_get :: "nat \<Rightarrow> object_store \<Rightarrow> Note option" where
  "store_get k st = map_of (records st) k"

definition emptyStore :: object_store where
  "emptyStore = \<lparr>records = [], keyGenerator = 1\<rparr>"

subsection \<open>The persistence gateway\<close>

text \<open>
  The global \<open>db\<close> is \<open>null\<close> until \<open>initDB\<close> has resolved; \<open>db.transaction\<close> then
  throws inside the promise executor and the promise is rejected. Each function returns
  what its promise settles with, and the database after the transaction.

  \<open>saveNote\<close> of app.js builds the record without a \<open>summary\<close> property; the hybrid
  variant stores \<open>note.summary ? sanitizeInput(note.summary) : null\<close>. Both set the id
  and call \<open>put\<close> only when \<open>note.id\<close> is truthy, and call \<open>add\<close> otherwise.
  \<open>note.tags || []\<close> is the array itself, since every array is truthy.
\<close>

definition sanitizedNote :: "Note \<Rightarrow> Note" where
  "sanitizedNote n =
     \<lparr>note_id = None, title = sanitizeInput (title n), note_text = sanitizeInput (note_text n),
      summary = Undefined, language = language n, timestamp = timestamp n, tags = tags n\<rparr>"

definition sanitizedNote_hybrid :: "Note \<Rightarrow> Note" where
  "sanitizedNote_hybrid n =
     \<lparr>note_id = None, title = sanitizeInput (title n), note_text = sanitizeInput (note_text n),
      summary = (case summary n of Str s \<Rightarrow> if s \<noteq> [] then Str (sanitizeInput s) else Null
                 | _ \<Rightarrow> Null),
      language = language n, timestamp = timestamp n, tags = tags n\<rparr>"

definition writeNote ::
  "Note \<Rightarrow> Note \<Rightarrow> object_store option \<Rightarrow> (storage_error + nat) \<times> object_store option" where
  "writeNote n sn db =
     (case db of
        None \<Rightarrow> (Inl DbNotOpen, db)
      | Some st \<Rightarrow>
          (case (if truthy_id (note_id n) then note_id n else None) of
             Some k \<Rightarrow>
               (case store_put k (sn\<lparr>note_id := Some k\<rparr>) st of
                  (k', st') \<Rightarrow> (Inr k', Some st'))
           | None \<Rightarrow>
               (case store_add sn st of
                  Inl e \<Rightarrow> (Inl e, db)
                | Inr (k', st') \<Rightarrow> (Inr k', Some st'))))"

definition saveNote ::
  "Note \<Rightarrow> object_store option \<Rightarrow> (storage_error + nat) \<times> object_store option" where
  "saveNote n db = writeNote n (sanitizedNote n) db"

definition saveNote_hybrid ::
  "Note \<Rightarrow> object_store option \<Rightarrow> (storage_error + nat) \<times> object_store option" where
  "saveNote_hybrid n db = writeNote n (sanitizedNote_hybrid n) db"

definition getAllNotes :: "object_store option \<Rightarrow> storage_error + Note list" where
  "getAllNotes db =
     (case db of None \<Rightarrow> Inl DbNotOpen | Some st \<Rightarrow> Inr (rev (store_getAll st)))"

definition getNote :: "nat \<Rightarrow> object_store option \<Rightarrow> storage_error + Note option" where
  "getNote i db = (case db of None \<Rightarrow> Inl DbNotOpen | Some st \<Rightarrow> Inr (store_get i st))"

definition deleteNote ::
  "nat \<Rightarrow> object_store option \<Rightarrow> (storage_error + unit) \<times> object_store option" where
  "deleteNote i db =
     (case db of
        None \<Rightarrow> (Inl DbNotOpen, db)
      | Some st \<Rightarrow> (Inr (), Some (store_delete i st)))"

subsection \<open>Sequences of gateway operations\<close>

text \<open>
  A store reached from the empty one keeps its keys strictly ascending, positive and below
  the key generator, and every record carries its key as its \<open>id\<close>.
\<close>

definition wf_store :: "object_store \<Rightarrow> bool" where
  "wf_store st =
     (sorted_wrt (<) (map fst (records st)) \<and>
      list_all (\<lambda>r. 0 < fst r \<and> fst r < keyGenerator st \<and> note_id (snd r) = Some (fst r))
        (records st) \<and>
      0 < keyGenerator st)"

datatype gateway_op = Save Note | Delete nat

text \<open>The flag selects the hybrid variant's \<open>saveNote\<close>; the other functions are the same.\<close>

definition save_variant ::
  "bool \<Rightarrow> Note \<Rightarrow> object_store option \<Rightarrow> (storage_error + nat) \<times> object_store option" where
  "save_variant hybrid = (if hybrid then saveNote_hybrid else saveNote)"

fun apply_op :: "bool \<Rightarrow> gateway_op \<Rightarrow> object_store option \<Rightarrow> object_store option" where
  "apply_op hybrid (Save n) db = snd (save_variant hybrid n db)"
| "apply_op hybrid (Delete i) db = snd (deleteNote i db)"

definition run_ops :: "bool \<Rightarrow> gateway_op list \<Rightarrow> object_store option \<Rightarrow> object_store option" where
  "run_ops hybrid ops db = fold (apply_op hybrid) ops db"

text \<open>The ids of the notes \<open>getAllNotes\<close> resolves with, in the order it returns them.\<close>

definition listed_ids :: "object_store option \<Rightarrow> nat option list" where
  "listed_ids db = (case getAllNotes db of Inl e \<Rightarrow> [] | Inr ns \<Rightarrow> map note_id ns)"

fun names_id :: "nat \<Rightarrow> gateway_op \<Rightarrow> bool" where
  "names_id i (Save n) = (note_id n = Some i)"
| "names_id i (Delete j) = False"

subsection \<open>Example notes and stores\<close>

definition noteA :: Note where
  "noteA = \<lparr>note_id = None, title = js ''A'', note_text = js ''first <b>'', summary = Undefined,
             language = js ''en'', timestamp = 1000, tags = []\<rparr>"

definition noteB :: Note where
  "noteB = \<lparr>note_id = None, title = js ''B'', note_text = js ''second'', summary = Undefined,
             language = js ''en'', timestamp = 2000, tags = []\<rparr>"

definition noteA_edited :: Note where
  "noteA_edited = \<lparr>note_id = Some 1, title = js ''A'', note_text = js ''first, edited'',
             summary = Undefined, language = js ''en'', timestamp = 3000, tags = []\<rparr>"

definition noteS :: Note where
  "noteS = \<lparr>note_id = None, title = js ''Q&A'', note_text = js ''a > b'', summary = Str (js ''x<y''),
             language = js ''hi'', timestamp = 4000, tags = []\<rparr>"

definition storeAB :: object_store where
  "storeAB = \<lparr>records = [(1, (sanitizedNote noteA)\<lparr>note_id := Some 1\<rparr>),
                          (2, (sanitizedNote noteB)\<lparr>note_id := Some 2\<rparr>)],
              keyGenerator = 3\<rparr>"


section \<open>Application state\<close>

text \<open>
  The text area of the editor: its \<open>value\<close> as the page reads it and the start of its
  selection, which the browser keeps between 0 and the length of the value.
\<close>

record textarea =
  ta_value :: js_string
  selectionStart :: nat

text \<open>
  A text area hands out its value with newlines normalised (the API value of the HTML
  standard): every CR LF pair reads as one LF, and every other CR reads as LF. A string
  assigned to \<open>value\<close> therefore reads back as \<open>normalizeNewlines\<close> of it, and
  \<open>setSelectionRange\<close> caps the offsets at the length of what reads back.
\<close>

fun normalizeNewlines :: "js_string \<Rightarrow> js_string" where
  "normalizeNewlines [] = []"
| "normalizeNewlines [c] = [if c = 0x0D then 0x0A else c]"
| "normalizeNewlines (c # d # cs) =
     (if c = 0x0D \<and> d = 0x0A then 0x0A # normalizeNewlines cs
      else (if c = 0x0D then 0x0A else c) # normalizeNewlines (d # cs))"

text \<open>
  The speech engine behind \<open>recognition\<close>. \<open>start()\<close> throws \<open>InvalidStateError\<close>
  while a session is active; a session is active from an accepted \<open>start()\<close> until the
  engine delivers its end notification.
\<close>

record engine =
  eng_active :: bool
  eng_lang :: js_string
  eng_continuous :: bool
  eng_interimResults :: bool

datatype start_error = InvalidStateError | OtherStartError

text \<open>
  The closures handed to \<open>setTimeout\<close>: \<open>autoSave\<close>; \<open>() => safeStartRecognition()\<close>;
  the retry closure of \<open>safeStartRecognition\<close>'s catch branch; and the restart closure
  of the hybrid variant's \<open>recognition.onend\<close>.
\<close>

datatype callback = AutoSaveCb | SafeStartCb | RetryStartCb | RestartHybridCb

record timer =
  timer_id :: nat
  due :: nat
  timer_callback :: callback

datatype note_status = StatusBlank | StatusSaving | StatusSaved | StatusError

text \<open>The messages passed to \<open>showStatus\<close>, each with its \<open>isError\<close> flag.\<close>

datatype status_message =
    MsgOffline | MsgNotSupported | MsgRecording | MsgStopped | MsgRecordingFailed
  | MsgFailedToStart | MsgNetworkError | MsgMicDenied
  | MsgTranscriptionSaved | MsgRecordingStopped | MsgRestartFailed | MsgInitFailed

text \<open>
  One record holds the globals of both variants, the parts of the page they read and
  write, and the platform around them: the connectivity flag \<open>navigator.onLine\<close>, whether
  the browser has a speech recognition constructor, the clock in milliseconds
  (\<open>Date.now()\<close>), the pending timers, and two counters kept for stating the claims:
  the calls of \<open>recognition.start()\<close> and the notes written by a successful save.
  \<open>lastFinalizedLength\<close>, \<open>isRecognitionStarting\<close> and \<open>isMobileDevice\<close> belong to
  app.js only; \<open>interimTranscript\<close> and \<open>finalTranscript\<close> to the hybrid variant only.
\<close>

record app =
  db :: "object_store option"
  currentNote :: "Note option"
  isRecording :: bool
  recognition :: "engine option"
  lastFinalizedLength :: nat
  isRecognitionStarting :: bool
  currentLanguage :: js_string
  saveTimeout :: "nat option"
  isMobileDevice :: bool
  interimTranscript :: js_string
  finalTranscript :: js_string
  noteTitleInput :: js_string
  noteTextArea :: textarea
  noteStatus :: note_status
  liveTranscriptionText :: js_string
  statusLog :: "(status_message \<times> bool) list"
  online :: bool
  speechSupported :: bool
  clock :: nat
  timers :: "timer list"
  nextTimerId :: nat
  startCalls :: nat
  stopCalls :: nat
  saveLog :: "Note list"

text \<open>
  \<open>showStatus\<close> shows the message; the timer that hides it again three seconds later
  changes nothing but a CSS class and is left out.
\<close>

definition showStatus :: "status_message \<Rightarrow> bool \<Rightarrow> app \<Rightarrow> app" where
  "showStatus m isError s = s\<lparr>statusLog := statusLog s @ [(m, isError)]\<rparr>"

text \<open>
  \<open>setTimeout\<close> registers a one-shot timer under a fresh positive handle and returns the
  handle; \<open>clearTimeout\<close> drops the pending timer of a handle, if there is one.
\<close>

definition setTimeout :: "callback \<Rightarrow> nat \<Rightarrow> app \<Rightarrow> nat \<times> app" where
  "setTimeout cb delay s =
     (nextTimerId s,
      s\<lparr>timers := timers s @ [\<lparr>timer_id = nextTimerId s, due = clock s + delay, timer_callback = cb\<rparr>],
        nextTimerId := Suc (nextTimerId s)\<rparr>)"

definition clearTimeout :: "nat \<Rightarrow> app \<Rightarrow> app" where
  "clearTimeout h s = s\<lparr>timers := filter (\<lambda>t. timer_id t \<noteq> h) (timers s)\<rparr>"

section \<open>Autosave\<close>

text \<open>
  \<open>scheduleAutoSave\<close> (app.js 217-221, hybrid variant 296-300). A handle is truthy
  when it is not 0.
\<close>

definition scheduleAutoSave :: "app \<Rightarrow> app" where
  "scheduleAutoSave s =
     (let s1 = s\<lparr>noteStatus := StatusSaving\<rparr>;
          s2 = (case saveTimeout s1 of
                  Some h \<Rightarrow> if h \<noteq> 0 then clearTimeout h s1 else s1
                | None \<Rightarrow> s1);
          (h', s3) = setTimeout AutoSaveCb 1000 s2
      in s3\<lparr>saveTimeout := Some h'\<rparr>)"

text \<open>
  \<open>autoSave\<close> (app.js 201-215, hybrid variant 275-294). The awaited save is taken as
  one step. The flag selects the hybrid variant, which stores the summary too and shows
  a status message on failure. Rendering the list afterwards changes no state kept here.
\<close>

definition untitledNote :: js_string where
  "untitledNote = js ''Untitled Note''"

definition autoSave :: "bool \<Rightarrow> app \<Rightarrow> app" where
  "autoSave hybrid s =
     (case currentNote s of
        None \<Rightarrow> s
      | Some n \<Rightarrow>
          (let n1 = n\<lparr>title := (if noteTitleInput s \<noteq> [] then noteTitleInput s else untitledNote),
                      note_text := ta_value (noteTextArea s),
                      timestamp := clock s\<rparr>
           in case save_variant hybrid n1 (db s) of
                (Inr k, db') \<Rightarrow>
                  s\<lparr>db := db',
                    currentNote := Some (if truthy_id (note_id n1) then n1 else n1\<lparr>note_id := Some k\<rparr>),
                    noteStatus := StatusSaved,
                    saveLog := saveLog s @ [n1]\<rparr>
              | (Inl e, db') \<Rightarrow>
                  (let s1 = s\<lparr>db := db', currentNote := Some n1, noteStatus := StatusError\<rparr>
                   in if hybrid then showStatus MsgFailedToStart True s1 else s1)))"

section \<open>Transcript assembly\<close>

text \<open>
  A result slot of a recognition event: the transcript of its top hypothesis and its
  \<open>isFinal\<close> flag.
\<close>

record speech_result =
  transcript :: js_string
  isFinal :: bool

record recognition_event =
  resultIndex :: nat
  results :: "speech_result list"

text \<open>\<open>String.prototype.trim\<close> strips white space and line terminators at both ends.\<close>

definition is_js_space :: "js_char \<Rightarrow> bool" where
  "is_js_space c =
     (c = 0x09 \<or> c = 0x0A \<or> c = 0x0B \<or> c = 0x0C \<or> c = 0x0D \<or> c = 0x20 \<or> c = 0xA0 \<or>
      c = 0x1680 \<or> (0x2000 \<le> c \<and> c \<le> 0x200A) \<or> c = 0x2028 \<or> c = 0x2029 \<or>
      c = 0x202F \<or> c = 0x205F \<or> c = 0x3000 \<or> c = 0xFEFF)"

definition trim :: "js_string \<Rightarrow> js_string" where
  "trim s = rev (dropWhile is_js_space (rev (dropWhile is_js_space s)))"

text \<open>\<open>endsWith\<close> for a one-character argument.\<close>

definition endsWith :: "js_string \<Rightarrow> js_char \<Rightarrow> bool" where
  "endsWith s c = (s \<noteq> [] \<and> last s = c)"

text \<open>
  The insertion block, written out twice in app.js with the same text (498-507 in
  \<open>handleMobileResults\<close>, 529-538 in \<open>handleDesktopResults\<close>) and run when the
  transcript is non-empty and a note is open. \<open>selectionStart || value.length\<close> takes
  the length when the selection start is 0. \<open>currentNote.text\<close> takes the new text as
  it was put together; the text area, assigned the same string, reads it back with
  newlines normalised, and \<open>setSelectionRange\<close> leaves the selection at the new
  position, which the browser caps at the length of the text area's value.
\<close>

definition cursorPosOf :: "textarea \<Rightarrow> nat" where
  "cursorPosOf ta = (if selectionStart ta \<noteq> 0 then selectionStart ta else length (ta_value ta))"

definition needsSpace :: "js_string \<Rightarrow> bool" where
  "needsSpace textBefore =
     (length textBefore > 0 \<and> \<not> endsWith textBefore 0x20 \<and> \<not> endsWith textBefore 0x0A)"

definition insertTranscript :: "js_string \<Rightarrow> app \<Rightarrow> app" where
  "insertTranscript t s =
     (let cursorPos = cursorPosOf (noteTextArea s);
          textBefore = take cursorPos (ta_value (noteTextArea s));
          textAfter = drop cursorPos (ta_value (noteTextArea s));
          spacer = (if needsSpace textBefore then [0x20] else []);
          newText = textBefore @ spacer @ t @ [0x20] @ textAfter;
          newCursorPos = cursorPos + length spacer + length t + 1
      in scheduleAutoSave
           (s\<lparr>currentNote := map_option (\<lambda>n. n\<lparr>note_text := newText\<rparr>) (currentNote s),
              noteTextArea := \<lparr>ta_value = normalizeNewlines newText,
                               selectionStart = min newCursorPos
                                                    (length (normalizeNewlines newText))\<rparr>\<rparr>))"

text \<open>
  \<open>handleMobileResults\<close> (app.js 493-511; this later declaration replaces the one at
  402). The loop visits every result slot from index 0.
\<close>

fun mobileLoop :: "speech_result list \<Rightarrow> app \<Rightarrow> app" where
  "mobileLoop [] s = s"
| "mobileLoop (r # rs) s =
     mobileLoop rs
       (if isFinal r
        then (let t = trim (transcript r)
              in if t \<noteq> [] \<and> currentNote s \<noteq> None then insertTranscript t s else s)
        else s)"

definition handleMobileResults :: "recognition_event \<Rightarrow> app \<Rightarrow> app" where
  "handleMobileResults event s = mobileLoop (results event) s"

text \<open>
  \<open>handleDesktopResults\<close> (app.js 513-546; replaces the declaration at 435). The loop
  builds \<open>interimText\<close> and \<open>finalText\<close> from all result slots.
\<close>

fun desktopLoop :: "speech_result list \<Rightarrow> js_string \<times> js_string \<Rightarrow> js_string \<times> js_string" where
  "desktopLoop [] acc = acc"
| "desktopLoop (r # rs) (interimText, finalText) =
     desktopLoop rs
       (if isFinal r then (interimText, finalText @ transcript r @ [0x20])
        else (interimText @ transcript r, finalText))"

definition handleDesktopResults :: "recognition_event \<Rightarrow> app \<Rightarrow> app" where
  "handleDesktopResults event s =
     (case desktopLoop (results event) ([], []) of
        (interimText, finalText) \<Rightarrow>
          (let s1 = (if length finalText > lastFinalizedLength s
                     then (let newText = trim (drop (lastFinalizedLength s) finalText);
                               s' = (if newText \<noteq> [] \<and> currentNote s \<noteq> None
                                     then insertTranscript newText s else s)
                           in s'\<lparr>lastFinalizedLength := length finalText\<rparr>)
                     else s)
           in if interimText \<noteq> [] then s1\<lparr>liveTranscriptionText := interimText\<rparr> else s1))"

text \<open>\<open>recognition.onresult\<close> of app.js (345-351).\<close>

definition onresult :: "recognition_event \<Rightarrow> app \<Rightarrow> app" where
  "onresult event s =
     (if isMobileDevice s then handleMobileResults event s else handleDesktopResults event s)"

text \<open>
  \<open>recognition.onresult\<close> of the hybrid variant (380-416). The loop starts at
  \<open>event.resultIndex\<close>, appends every final transcript to \<open>finalTranscript\<close> and inserts
  it, untrimmed and without a leading space, at the selection start.
\<close>

definition insertTranscript_hybrid :: "js_string \<Rightarrow> app \<Rightarrow> app" where
  "insertTranscript_hybrid t s =
     (let v = ta_value (noteTextArea s);
          cursorPos = selectionStart (noteTextArea s);
          textBefore = take cursorPos v;
          textAfter = drop cursorPos v;
          newText = textBefore @ t @ [0x20] @ textAfter;
          newCursorPos = cursorPos + length t + 1
      in scheduleAutoSave
           (s\<lparr>currentNote := map_option (\<lambda>n. n\<lparr>note_text := newText\<rparr>) (currentNote s),
              noteTextArea := \<lparr>ta_value = normalizeNewlines newText,
                               selectionStart = min newCursorPos
                                                    (length (normalizeNewlines newText))\<rparr>\<rparr>))"

fun hybridLoop :: "speech_result list \<Rightarrow> app \<Rightarrow> app" where
  "hybridLoop [] s = s"
| "hybridLoop (r # rs) s =
     hybridLoop rs
       (if isFinal r
        then (let s1 = s\<lparr>finalTranscript := finalTranscript s @ transcript r @ [0x20]\<rparr>
              in if currentNote s1 \<noteq> None then insertTranscript_hybrid (transcript r) s1 else s1)
        else s\<lparr>interimTranscript := interimTranscript s @ transcript r\<rparr>)"

definition onresult_hybrid :: "recognition_event \<Rightarrow> app \<Rightarrow> app" where
  "onresult_hybrid event s =
     (let s1 = hybridLoop (drop (resultIndex event) (results event)) (s\<lparr>interimTranscript := []\<rparr>)
      in s1\<lparr>liveTranscriptionText := finalTranscript s1 @ interimTranscript s1\<rparr>)"

text \<open>The cumulative final text and the interim text of an event, as the loop builds them.\<close>

definition finalTextOf :: "recognition_event \<Rightarrow> js_string" where
  "finalTextOf event = snd (desktopLoop (results event) ([], []))"

definition interimTextOf :: "recognition_event \<Rightarrow> js_string" where
  "interimTextOf event = fst (desktopLoop (results event) ([], []))"

section \<open>Recording sessions\<close>

text \<open>The \<open>languageMap\<close> table and \<open>languageMap[currentLanguage] || 'en-US'\<close>.\<close>

definition languageMap :: "(js_string \<times> js_string) list" where
  "languageMap =
     [(js ''en'', js ''en-US''), (js ''hi'', js ''hi-IN''), (js ''bn'', js ''bn-IN''),
      (js ''ta'', js ''ta-IN''), (js ''te'', js ''te-IN''), (js ''ml'', js ''ml-IN''),
      (js ''kn'', js ''kn-IN''), (js ''mr'', js ''mr-IN''), (js ''gu'', js ''gu-IN''),
      (js ''pa'', js ''pa-IN''), (js ''ur'', js ''ur-PK'')]"

definition localeOf :: "js_string \<Rightarrow> js_string" where
  "localeOf code = (case map_of languageMap code of Some l \<Rightarrow> l | None \<Rightarrow> js ''en-US'')"

text \<open>
  \<open>recognition.start()\<close> and \<open>recognition.stop()\<close>. Every call is counted. \<open>start\<close>
  throws while a session is active and begins one otherwise; \<open>stop\<close> only asks the
  engine to end, which it reports later through \<open>onend\<close>.
\<close>

definition recognition_start :: "app \<Rightarrow> start_error option \<times> app" where
  "recognition_start s =
     (let s1 = s\<lparr>startCalls := Suc (startCalls s)\<rparr>
      in case recognition s1 of
           None \<Rightarrow> (Some OtherStartError, s1)
         | Some e \<Rightarrow>
             if eng_active e then (Some InvalidStateError, s1)
             else (None, s1\<lparr>recognition := Some (e\<lparr>eng_active := True\<rparr>)\<rparr>))"

definition recognition_stop :: "app \<Rightarrow> app" where
  "recognition_stop s = s\<lparr>stopCalls := Suc (stopCalls s)\<rparr>"

text \<open>\<open>createNewNote\<close> (app.js 184-192, hybrid variant 245-257) with \<open>updateEditor\<close>.\<close>

definition createNewNote :: "bool \<Rightarrow> app \<Rightarrow> app" where
  "createNewNote hybrid s =
     s\<lparr>currentNote := Some \<lparr>note_id = None, title = [], note_text = [],
                              summary = (if hybrid then Null else Undefined),
                              language = currentLanguage s, timestamp = clock s, tags = []\<rparr>,
       noteTitleInput := [],
       noteTextArea := \<lparr>ta_value = [], selectionStart = 0\<rparr>\<rparr>"

subsection \<open>app.js\<close>

text \<open>\<open>stopRecording\<close> (app.js 592-607).\<close>

definition stopRecording :: "app \<Rightarrow> app" where
  "stopRecording s =
     (if \<not> isRecording s then s
      else (let s1 = s\<lparr>isRecording := False, isRecognitionStarting := False\<rparr>;
                s2 = (if recognition s1 \<noteq> None then recognition_stop s1 else s1)
            in showStatus MsgStopped False (s2\<lparr>lastFinalizedLength := 0\<rparr>)))"

text \<open>\<open>safeStartRecognition\<close> (app.js 472-491).\<close>

definition safeStartRecognition :: "app \<Rightarrow> app" where
  "safeStartRecognition s =
     (if isRecognitionStarting s \<or> \<not> isRecording s then s
      else if recognition s = None then s
      else (case recognition_start (s\<lparr>isRecognitionStarting := True\<rparr>) of
              (None, s1) \<Rightarrow> s1
            | (Some err, s1) \<Rightarrow>
                (let s2 = s1\<lparr>isRecognitionStarting := False\<rparr>
                 in if err = InvalidStateError then snd (setTimeout RetryStartCb 1000 s2)
                    else showStatus MsgRecordingFailed True (stopRecording s2))))"

text \<open>
  The retry closure of the catch branch:
  \<open>isRecognitionStarting = false; if (isRecording) safeStartRecognition()\<close>.
\<close>

definition retryStart :: "app \<Rightarrow> app" where
  "retryStart s =
     (let s1 = s\<lparr>isRecognitionStarting := False\<rparr>
      in if isRecording s1 then safeStartRecognition s1 else s1)"

text \<open>
  \<open>initSpeechRecognition\<close> (app.js 299-400) creates the engine object when the browser
  has the constructor and leaves \<open>recognition\<close> null otherwise.
\<close>

definition initSpeechRecognition :: "app \<Rightarrow> app" where
  "initSpeechRecognition s =
     (if \<not> speechSupported s then s\<lparr>recognition := None\<rparr>
      else s\<lparr>recognition :=
               Some \<lparr>eng_active = False, eng_lang = localeOf (currentLanguage s),
                     eng_continuous = \<not> isMobileDevice s,
                     eng_interimResults = \<not> isMobileDevice s\<rparr>\<rparr>)"

text \<open>
  \<open>startRecording\<close> (app.js 548-590). \<open>isMobileDevice\<close> is always a boolean, so the
  second line of the source does nothing.
\<close>

definition startRecording :: "app \<Rightarrow> app" where
  "startRecording s =
     (let s0 = (if currentNote s = None then createNewNote False s else s)
      in if isRecording s0 \<or> isRecognitionStarting s0 then s0
         else if \<not> online s0 then showStatus MsgOffline True s0
         else (let s1 = (if recognition s0 = None then initSpeechRecognition s0 else s0)
               in if recognition s1 = None then showStatus MsgNotSupported True s1
                  else (let s2 = s1\<lparr>recognition :=
                                       map_option (\<lambda>e. e\<lparr>eng_lang := localeOf (currentLanguage s1)\<rparr>)
                                         (recognition s1),
                                     lastFinalizedLength := 0,
                                     isRecording := True\<rparr>
                        in showStatus MsgRecording False (safeStartRecognition s2))))"

text \<open>
  \<open>recognition.onstart\<close> (app.js 322-343) and \<open>recognition.onend\<close> (380-397). The
  engine's session is over when it reports its end.
\<close>

definition onstart :: "app \<Rightarrow> app" where
  "onstart s = s\<lparr>isRecognitionStarting := False, lastFinalizedLength := 0\<rparr>"

definition onend :: "app \<Rightarrow> app" where
  "onend s =
     (let s1 = s\<lparr>recognition := map_option (\<lambda>e. e\<lparr>eng_active := False\<rparr>) (recognition s),
                 isRecognitionStarting := False, lastFinalizedLength := 0\<rparr>
      in if isRecording s1 then snd (setTimeout SafeStartCb 100 s1) else s1)"

subsection \<open>The hybrid variant\<close>

text \<open>\<open>stopRecording\<close> of the hybrid variant (578-600).\<close>

definition stopRecording_hybrid :: "app \<Rightarrow> app" where
  "stopRecording_hybrid s =
     (if recognition s \<noteq> None \<and> isRecording s
      then (let s1 = (recognition_stop s)\<lparr>isRecording := False\<rparr>
            in if trim (finalTranscript s1) \<noteq> []
               then (showStatus MsgTranscriptionSaved False s1)\<lparr>finalTranscript := []\<rparr>
               else showStatus MsgRecordingStopped False s1)
      else s)"

text \<open>
  The closure \<open>recognition.onend\<close> hands to \<open>setTimeout\<close> (481-490): it calls
  \<open>recognition.start()\<close> and stops the recording when that throws.
\<close>

definition restart_hybrid :: "app \<Rightarrow> app" where
  "restart_hybrid s =
     (case recognition_start s of
        (None, s1) \<Rightarrow> s1
      | (Some err, s1) \<Rightarrow> showStatus MsgRestartFailed True (stopRecording_hybrid s1))"

text \<open>\<open>recognition.onend\<close> of the hybrid variant (473-495).\<close>

definition onend_hybrid :: "app \<Rightarrow> app" where
  "onend_hybrid s =
     (let s1 = s\<lparr>recognition := map_option (\<lambda>e. e\<lparr>eng_active := False\<rparr>) (recognition s)\<rparr>
      in if isRecording s1 \<and> online s1 then snd (setTimeout RestartHybridCb 100 s1)
         else if isRecording s1 \<and> \<not> online s1
              then showStatus MsgOffline True (stopRecording_hybrid s1)
              else s1)"

definition initSpeechRecognition_hybrid :: "app \<Rightarrow> app" where
  "initSpeechRecognition_hybrid s =
     (if \<not> speechSupported s then s\<lparr>recognition := None\<rparr>
      else s\<lparr>recognition :=
               Some \<lparr>eng_active = False, eng_lang = localeOf (currentLanguage s),
                     eng_continuous = True, eng_interimResults = True\<rparr>\<rparr>)"

text \<open>
  \<open>startRecording\<close> of the hybrid variant (500-576). A throwing \<open>start()\<close> is caught
  and reported; \<open>isRecording\<close> is set only after an accepted start.
\<close>

definition startRecording_hybrid :: "app \<Rightarrow> app" where
  "startRecording_hybrid s =
     (let s0 = (if currentNote s = None then createNewNote True s else s)
      in if \<not> speechSupported s0 then showStatus MsgNotSupported True s0
         else if \<not> online s0 then showStatus MsgOffline True s0
         else (let s1 = (if recognition s0 = None then initSpeechRecognition_hybrid s0 else s0)
               in if recognition s1 = None then showStatus MsgInitFailed True s1
                  else (let s2 = s1\<lparr>recognition :=
                                       map_option (\<lambda>e. e\<lparr>eng_lang := localeOf (currentLanguage s1)\<rparr>)
                                         (recognition s1)\<rparr>
                        in case recognition_start s2 of
                             (None, s3) \<Rightarrow> showStatus MsgRecording False (s3\<lparr>isRecording := True\<rparr>)
                           | (Some err, s3) \<Rightarrow> showStatus MsgFailedToStart True s3)))"

section \<open>Timers and the passing of time\<close>

text \<open>
  Running a closure. Each variant registers only its own closures; a closure of the
  other variant is never pending and running it does nothing.
\<close>

fun fire :: "bool \<Rightarrow> callback \<Rightarrow> app \<Rightarrow> app" where
  "fire hybrid AutoSaveCb s = autoSave hybrid s"
| "fire hybrid SafeStartCb s = (if hybrid then s else safeStartRecognition s)"
| "fire hybrid RetryStartCb s = (if hybrid then s else retryStart s)"
| "fire hybrid RestartHybridCb s = (if hybrid then restart_hybrid s else s)"

text \<open>
  One millisecond passes: the clock advances and the timers that are due run in the
  order they were registered, each unless an earlier one has cleared it. A timer runs
  once.
\<close>

definition run_timer :: "bool \<Rightarrow> timer \<Rightarrow> app \<Rightarrow> app" where
  "run_timer hybrid t s =
     (if t \<in> set (timers s)
      then fire hybrid (timer_callback t) (s\<lparr>timers := remove1 t (timers s)\<rparr>)
      else s)"

definition tick :: "bool \<Rightarrow> app \<Rightarrow> app" where
  "tick hybrid s =
     (let s1 = s\<lparr>clock := Suc (clock s)\<rparr>
      in fold (run_timer hybrid) (filter (\<lambda>t. due t \<le> clock s1) (timers s1)) s1)"

primrec elapse :: "bool \<Rightarrow> nat \<Rightarrow> app \<Rightarrow> app" where
  "elapse hybrid 0 s = s"
| "elapse hybrid (Suc n) s = elapse hybrid n (tick hybrid s)"

text \<open>
  A mutation of the editor: an \<open>input\<close> event of the title field or of the text area
  (both listeners are \<open>scheduleAutoSave\<close>), after which the field reads as given, or a
  transcript insertion.
\<close>

datatype mutation = TitleInput js_string | TextInput js_string nat | Dictated js_string

fun mutate :: "bool \<Rightarrow> mutation \<Rightarrow> app \<Rightarrow> app" where
  "mutate hybrid (TitleInput v) s = scheduleAutoSave (s\<lparr>noteTitleInput := v\<rparr>)"
| "mutate hybrid (TextInput v c) s =
     scheduleAutoSave (s\<lparr>noteTextArea := \<lparr>ta_value = v, selectionStart = c\<rparr>\<rparr>)"
| "mutate hybrid (Dictated t) s =
     (if hybrid then insertTranscript_hybrid t s else insertTranscript t s)"

text \<open>A burst: each mutation arrives the given number of milliseconds after the one before.\<close>

fun burst :: "bool \<Rightarrow> (nat \<times> mutation) list \<Rightarrow> app \<Rightarrow> app" where
  "burst hybrid [] s = s"
| "burst hybrid ((d, m) # ms) s = burst hybrid ms (mutate hybrid m (elapse hybrid d s))"

text \<open>
  The pending \<open>autoSave\<close> timers. The page keeps them sound as long as every one of them
  is the timer whose handle \<open>saveTimeout\<close> holds and handles are positive, which is
  what the browser's \<open>setTimeout\<close> returns.
\<close>

definition pendingAutoSaves :: "app \<Rightarrow> timer list" where
  "pendingAutoSaves s = filter (\<lambda>t. timer_callback t = AutoSaveCb) (timers s)"

definition timers_ok :: "app \<Rightarrow> bool" where
  "timers_ok s =
     (0 < nextTimerId s \<and>
      list_all (\<lambda>t. timer_id t \<noteq> 0 \<and> saveTimeout s = Some (timer_id t)) (pendingAutoSaves s))"

text \<open>
  The state right after a mutation made at time \<open>T\<close>: exactly one \<open>autoSave\<close> timer is
  pending, it is due at \<open>T + 1000\<close>, and \<open>saveTimeout\<close> holds its handle.
\<close>

definition armed :: "nat \<Rightarrow> app \<Rightarrow> bool" where
  "armed T s =
     (case saveTimeout s of
        None \<Rightarrow> False
      | Some h \<Rightarrow>
          h \<noteq> 0 \<and> 0 < nextTimerId s \<and>
          pendingAutoSaves s = [\<lparr>timer_id = h, due = T + 1000, timer_callback = AutoSaveCb\<rparr>])"

text \<open>What \<open>autoSave\<close> reads and writes, and the timers that run it.\<close>

definition autosave_view ::
  "app \<Rightarrow> object_store option \<times> Note list \<times> Note option \<times> js_string \<times> textarea \<times>
          nat option \<times> timer list" where
  "autosave_view s =
     (db s, saveLog s, currentNote s, noteTitleInput s, noteTextArea s, saveTimeout s,
      pendingAutoSaves s)"

text \<open>
  The note \<open>autoSave\<close> hands to \<open>saveNote\<close>: the open note with the title field (or
  \<open>Untitled Note\<close>), the text area's value and the current time.
\<close>

definition noteToSave :: "app \<Rightarrow> Note \<Rightarrow> Note" where
  "noteToSave s n =
     n\<lparr>title := (if noteTitleInput s \<noteq> [] then noteTitleInput s else untitledNote),
       note_text := ta_value (noteTextArea s),
       timestamp := clock s\<rparr>"

text \<open>The last mutation of a burst that starts with \<open>m0\<close> and goes on with \<open>ms\<close>.\<close>

definition lastMutation :: "mutation \<Rightarrow> (nat \<times> mutation) list \<Rightarrow> mutation" where
  "lastMutation m0 ms = (if ms = [] then m0 else snd (last ms))"

section \<open>Export\<close>

text \<open>
  The values \<open>JSON.stringify\<close> writes for a list of stored notes and \<open>JSON.parse\<close>
  reads back: \<open>null\<close>, booleans, numbers, strings, arrays, and objects as their
  properties in order. Timestamps and ids are non-negative integers below \<open>2^53\<close>,
  which a JavaScript number holds exactly and prints in plain decimal; other numbers are
  not modelled.
\<close>

datatype json =
    JNull | JBool bool | JNumber nat | JString js_string
  | JArray "json list" | JObject "(js_string \<times> json) list"

subsection \<open>\<open>JSON.stringify(value, null, 2)\<close>\<close>

text \<open>The decimal digits of a number, most significant first.\<close>

definition digitChar :: "nat \<Rightarrow> js_char" where
  "digitChar d = of_nat (48 + d)"

function decimal :: "nat \<Rightarrow> js_string" where
  "decimal n = (if n < 10 then [digitChar n] else decimal (n div 10) @ [digitChar (n mod 10)])"
  by pat_completeness auto
termination
  by (relation "measure id") auto

declare decimal.simps [simp del]

definition numberToString :: "nat \<Rightarrow> js_string" where
  "numberToString n = decimal n"

text \<open>
  \<open>QuoteJSONString\<close>: a backslash escape for the quote, the backslash and the five
  control characters that have a short form, \<open>\uXXXX\<close> with lower-case digits for the
  other code units below U+0020 and for a surrogate that is not part of a pair, and the
  code unit itself otherwise.
\<close>

definition hexDigit :: "nat \<Rightarrow> js_char" where
  "hexDigit d = (if d < 10 then of_nat (48 + d) else of_nat (87 + d))"

definition unicodeEscape :: "js_char \<Rightarrow> js_string" where
  "unicodeEscape c =
     [0x5C, 0x75, hexDigit (unat c div 4096), hexDigit (unat c div 256 mod 16),
      hexDigit (unat c div 16 mod 16), hexDigit (unat c mod 16)]"

definition isLeadSurrogate :: "js_char \<Rightarrow> bool" where
  "isLeadSurrogate c = (0xD800 \<le> unat c \<and> unat c \<le> 0xDBFF)"

definition isTrailSurrogate :: "js_char \<Rightarrow> bool" where
  "isTrailSurrogate c = (0xDC00 \<le> unat c \<and> unat c \<le> 0xDFFF)"

definition quoteCodeUnit :: "js_char \<Rightarrow> js_string" where
  "quoteCodeUnit c =
     (if c = 0x08 then [0x5C, 0x62]
      else if c = 0x09 then [0x5C, 0x74]
      else if c = 0x0A then [0x5C, 0x6E]
      else if c = 0x0C then [0x5C, 0x66]
      else if c = 0x0D then [0x5C, 0x72]
      else if c = 0x22 then [0x5C, 0x22]
      else if c = 0x5C then [0x5C, 0x5C]
      else if unat c < 0x20 \<or> isLeadSurrogate c \<or> isTrailSurrogate c then unicodeEscape c
      else [c])"

fun quoteBody :: "js_string \<Rightarrow> js_string" where
  "quoteBody [] = []"
| "quoteBody [c] = quoteCodeUnit c"
| "quoteBody (c # d # cs) =
     (if isLeadSurrogate c \<and> isTrailSurrogate d then c # d # quoteBody cs
      else quoteCodeUnit c @ quoteBody (d # cs))"

definition quoteJSONString :: "js_string \<Rightarrow> js_string" where
  "quoteJSONString s = [0x22] @ quoteBody s @ [0x22]"

text \<open>
  \<open>SerializeJSONProperty\<close> with a gap of two spaces; \<open>k\<close> is the current indent in
  spaces. An empty array is \<open>[]\<close> and an empty object \<open>{}\<close>; otherwise every element
  or member stands on a line of its own, one level deeper, separated by commas, and a
  member is its quoted key, a colon, a space and its value.
\<close>

definition newline :: "nat \<Rightarrow> js_string" where
  "newline k = 0x0A # replicate k 0x20"

fun serialize :: "nat \<Rightarrow> json \<Rightarrow> js_string"
  and serializeElements :: "nat \<Rightarrow> json list \<Rightarrow> js_string"
  and serializeMembers :: "nat \<Rightarrow> (js_string \<times> json) list \<Rightarrow> js_string" where
  "serialize k JNull = js ''null''"
| "serialize k (JBool b) = (if b then js ''true'' else js ''false'')"
| "serialize k (JNumber n) = numberToString n"
| "serialize k (JString s) = quoteJSONString s"
| "serialize k (JArray vs) =
     (if vs = [] then js ''[]''
      else [0x5B] @ newline (k + 2) @ serializeElements (k + 2) vs @ newline k @ [0x5D])"
| "serialize k (JObject ms) =
     (if ms = [] then js ''{}''
      else [0x7B] @ newline (k + 2) @ serializeMembers (k + 2) ms @ newline k @ [0x7D])"
| "serializeElements k [] = []"
| "serializeElements k [v] = serialize k v"
| "serializeElements k (v # w # vs) =
     serialize k v @ [0x2C] @ newline k @ serializeElements k (w # vs)"
| "serializeMembers k [] = []"
| "serializeMembers k [m] = quoteJSONString (fst m) @ [0x3A, 0x20] @ serialize k (snd m)"
| "serializeMembers k (m # m' # ms) =
     quoteJSONString (fst m) @ [0x3A, 0x20] @ serialize k (snd m) @ [0x2C] @ newline k @
     serializeMembers k (m' # ms)"

definition JSON_stringify :: "json \<Rightarrow> js_string" where
  "JSON_stringify v = serialize 0 v"

subsection \<open>\<open>JSON.parse\<close>\<close>

text \<open>
  A recursive-descent reader of the JSON grammar: white space is space, tab, line feed
  and carriage return; a string may hold any code unit from U+0020 on and the escapes
  \<open>\" \\ \/ \b \f \n \r \t \uXXXX\<close>; a number is read when it is a run of digits
  without a leading zero. The fuel bounds the nesting of calls; \<open>JSON_parse\<close> gives it
  the length of the text. \<open>None\<close> stands for the \<open>SyntaxError\<close> (and for a number
  outside the model).
\<close>

definition isWhite :: "js_char \<Rightarrow> bool" where
  "isWhite c = (c = 0x20 \<or> c = 0x09 \<or> c = 0x0A \<or> c = 0x0D)"

definition skipWhite :: "js_string \<Rightarrow> js_string" where
  "skipWhite s = dropWhile isWhite s"

definition isDigit :: "js_char \<Rightarrow> bool" where
  "isDigit c = (48 \<le> unat c \<and> unat c \<le> 57)"

definition hexValue :: "js_char \<Rightarrow> nat option" where
  "hexValue c =
     (if 48 \<le> unat c \<and> unat c \<le> 57 then Some (unat c - 48)
      else if 97 \<le> unat c \<and> unat c \<le> 102 then Some (unat c - 87)
      else if 65 \<le> unat c \<and> unat c \<le> 70 then Some (unat c - 55)
      else None)"

definition hex4 :: "js_char \<Rightarrow> js_char \<Rightarrow> js_char \<Rightarrow> js_char \<Rightarrow> js_char option" where
  "hex4 a b c d =
     (case (hexValue a, hexValue b, hexValue c, hexValue d) of
        (Some p, Some q, Some r, Some t) \<Rightarrow> Some (of_nat (4096 * p + 256 * q + 16 * r + t))
      | _ \<Rightarrow> None)"

definition unescape :: "js_char \<Rightarrow> js_char option" where
  "unescape e =
     (if e = 0x22 then Some 0x22
      else if e = 0x5C then Some 0x5C
      else if e = 0x2F then Some 0x2F
      else if e = 0x62 then Some 0x08
      else if e = 0x66 then Some 0x0C
      else if e = 0x6E then Some 0x0A
      else if e = 0x72 then Some 0x0D
      else if e = 0x74 then Some 0x09
      else None)"

definition consResult :: "'a \<Rightarrow> ('a list \<times> js_string) option \<Rightarrow> ('a list \<times> js_string) option" where
  "consResult x r = (case r of None \<Rightarrow> None | Some (xs, rest) \<Rightarrow> Some (x # xs, rest))"

text \<open>The characters of a string after its opening quote, up to the closing quote.\<close>

fun parseChars :: "js_string \<Rightarrow> (js_string \<times> js_string) option" where
  "parseChars [] = None"
| "parseChars (c # cs) =
     (if c = 0x22 then Some ([], cs)
      else if c = 0x5C then
        (case cs of
           [] \<Rightarrow> None
         | e # es \<Rightarrow>
             if e = 0x75 then
               (case es of
                  a # b # c' # d # rest \<Rightarrow>
                    (case hex4 a b c' d of
                       None \<Rightarrow> None
                     | Some u \<Rightarrow> consResult u (parseChars rest))
                | _ \<Rightarrow> None)
             else (case unescape e of
                     None \<Rightarrow> None
                   | Some u \<Rightarrow> consResult u (parseChars es)))
      else if unat c < 0x20 then None
      else consResult c (parseChars cs))"

definition digitsValue :: "js_string \<Rightarrow> nat" where
  "digitsValue ds = foldl (\<lambda>acc c. 10 * acc + (unat c - 48)) 0 ds"

definition parseNumber :: "js_string \<Rightarrow> (nat \<times> js_string) option" where
  "parseNumber s =
     (let ds = takeWhile isDigit s
      in if ds = [] \<or> (hd ds = 0x30 \<and> length ds > 1) then None
         else Some (digitsValue ds, dropWhile isDigit s))"

fun matchLiteral :: "js_string \<Rightarrow> js_string \<Rightarrow> js_string option" where
  "matchLiteral [] s = Some s"
| "matchLiteral (l # ls) [] = None"
| "matchLiteral (l # ls) (c # cs) = (if l = c then matchLiteral ls cs else None)"

fun parseValue :: "nat \<Rightarrow> js_string \<Rightarrow> (json \<times> js_string) option"
  and parseElements :: "nat \<Rightarrow> js_string \<Rightarrow> (json list \<times> js_string) option"
  and parseMembers :: "nat \<Rightarrow> js_string \<Rightarrow> ((js_string \<times> json) list \<times> js_string) option" where
  "parseValue 0 s = None"
| "parseValue (Suc f) [] = None"
| "parseValue (Suc f) (c # cs) =
     (if c = 0x22 then
        (case parseChars cs of None \<Rightarrow> None | Some (str, rest) \<Rightarrow> Some (JString str, rest))
      else if c = 0x5B then
        (case skipWhite cs of
           [] \<Rightarrow> None
         | d # ds \<Rightarrow>
             if d = 0x5D then Some (JArray [], ds)
             else (case parseElements f (d # ds) of
                     None \<Rightarrow> None
                   | Some (vs, rest) \<Rightarrow> Some (JArray vs, rest)))
      else if c = 0x7B then
        (case skipWhite cs of
           [] \<Rightarrow> None
         | d # ds \<Rightarrow>
             if d = 0x7D then Some (JObject [], ds)
             else (case parseMembers f (d # ds) of
                     None \<Rightarrow> None
                   | Some (ms, rest) \<Rightarrow> Some (JObject ms, rest)))
      else if c = 0x6E then
        (case matchLiteral (js ''ull'') cs of None \<Rightarrow> None | Some rest \<Rightarrow> Some (JNull, rest))
      else if c = 0x74 then
        (case matchLiteral (js ''rue'') cs of None \<Rightarrow> None | Some rest \<Rightarrow> Some (JBool True, rest))
      else if c = 0x66 then
        (case matchLiteral (js ''alse'') cs of None \<Rightarrow> None | Some rest \<Rightarrow> Some (JBool False, rest))
      else (case parseNumber (c # cs) of None \<Rightarrow> None | Some (n, rest) \<Rightarrow> Some (JNumber n, rest)))"
| "parseElements 0 s = None"
| "parseElements (Suc f) s =
     (case parseValue f s of
        None \<Rightarrow> None
      | Some (v, rest) \<Rightarrow>
          (case skipWhite rest of
             [] \<Rightarrow> None
           | d # ds \<Rightarrow>
               if d = 0x5D then Some ([v], ds)
               else if d = 0x2C then consResult v (parseElements f (skipWhite ds))
               else None))"
| "parseMembers 0 s = None"
| "parseMembers (Suc f) [] = None"
| "parseMembers (Suc f) (c # cs) =
     (if c \<noteq> 0x22 then None
      else (case parseChars cs of
              None \<Rightarrow> None
            | Some (key, rest) \<Rightarrow>
                (case skipWhite rest of
                   [] \<Rightarrow> None
                 | d # ds \<Rightarrow>
                     if d \<noteq> 0x3A then None
                     else (case parseValue f (skipWhite ds) of
                             None \<Rightarrow> None
                           | Some (v, rest') \<Rightarrow>
                               (case skipWhite rest' of
                                  [] \<Rightarrow> None
                                | e # es \<Rightarrow>
                                    if e = 0x7D then Some ([(key, v)], es)
                                    else if e = 0x2C
                                    then consResult (key, v) (parseMembers f (skipWhite es))
                                    else None)))))"

definition JSON_parse :: "js_string \<Rightarrow> json option" where
  "JSON_parse text =
     (case parseValue (length text) (skipWhite text) of
        None \<Rightarrow> None
      | Some (v, rest) \<Rightarrow> if skipWhite rest = [] then Some v else None)"

text \<open>What may follow a number in a text: the end, or anything but a digit.\<close>

definition endsNumber :: "js_string \<Rightarrow> bool" where
  "endsNumber rest = (case rest of [] \<Rightarrow> True | c # cs \<Rightarrow> \<not> isDigit c)"

subsection \<open>Notes as JSON\<close>

text \<open>
  The own properties of a stored note in the order they were created: \<open>saveNote\<close>
  builds the object with title, text, (summary in the hybrid variant,) language,
  timestamp and tags, and the id is added last, by \<open>saveNote\<close> for an update and by the
  store for an insert. A missing property is not written.
\<close>

definition noteToJson :: "Note \<Rightarrow> json" where
  "noteToJson n =
     JObject
       ([(js ''title'', JString (title n)), (js ''text'', JString (note_text n))] @
        (case summary n of
           Undefined \<Rightarrow> []
         | Null \<Rightarrow> [(js ''summary'', JNull)]
         | Str s \<Rightarrow> [(js ''summary'', JString s)]) @
        [(js ''language'', JString (language n)), (js ''timestamp'', JNumber (timestamp n)),
         (js ''tags'', JArray (map JString (tags n)))] @
        (case note_id n of None \<Rightarrow> [] | Some k \<Rightarrow> [(js ''id'', JNumber k)]))"

datatype export_result = ExportFailed storage_error | NoNotes | Exported js_string

text \<open>
  \<open>exportNotes\<close> (app.js 610-624, hybrid variant 661-687): the document offered for
  download is \<open>JSON.stringify(notes, null, 2)\<close> of what \<open>getAllNotes\<close> returns; with no
  notes there is only a status message. Nothing is escaped here.
\<close>

definition exportNotes :: "object_store option \<Rightarrow> export_result" where
  "exportNotes d =
     (case getAllNotes d of
        Inl e \<Rightarrow> ExportFailed e
      | Inr notes \<Rightarrow>
          if notes = [] then NoNotes
          else Exported (JSON_stringify (JArray (map noteToJson notes))))"

text \<open>
  Reading the parsed document: each element's properties by name, as \<open>note.title\<close>,
  \<open>note.text\<close> and so on would read them. Where a text names a property of an object
  more than once, \<open>JSON.parse\<close> keeps the value given last. The page has no function
  that reads the document back; these definitions read it the way a script holding the
  parsed array would.
\<close>

definition property :: "(js_string \<times> json) list \<Rightarrow> js_string \<Rightarrow> json option" where
  "property ms k = map_of (rev ms) k"

definition jsonString :: "json option \<Rightarrow> js_string option" where
  "jsonString v = (case v of Some (JString s) \<Rightarrow> Some s | _ \<Rightarrow> None)"

definition jsonNumber :: "json option \<Rightarrow> nat option" where
  "jsonNumber v = (case v of Some (JNumber n) \<Rightarrow> Some n | _ \<Rightarrow> None)"

fun jsonStrings :: "json list \<Rightarrow> js_string list option" where
  "jsonStrings [] = Some []"
| "jsonStrings (JString s # vs) = (case jsonStrings vs of None \<Rightarrow> None | Some ss \<Rightarrow> Some (s # ss))"
| "jsonStrings (v # vs) = None"

definition noteOfJson :: "json \<Rightarrow> Note option" where
  "noteOfJson v =
     (case v of
        JObject ms \<Rightarrow>
          (case (jsonString (property ms (js ''title'')), jsonString (property ms (js ''text'')),
                 jsonString (property ms (js ''language'')),
                 jsonNumber (property ms (js ''timestamp'')), property ms (js ''tags'')) of
             (Some ti, Some te, Some la, Some ts, Some (JArray tg)) \<Rightarrow>
               (case jsonStrings tg of
                  None \<Rightarrow> None
                | Some tgs \<Rightarrow>
                    Some \<lparr>note_id = jsonNumber (property ms (js ''id'')), title = ti,
                          note_text = te,
                          summary = (case property ms (js ''summary'') of
                                       Some (JString s) \<Rightarrow> Str s
                                     | Some other \<Rightarrow> Null
                                     | None \<Rightarrow> Undefined),
                          language = la, timestamp = ts, tags = tgs\<rparr>)
           | _ \<Rightarrow> None)
      | _ \<Rightarrow> None)"

fun notesOfJsonList :: "json list \<Rightarrow> Note list option" where
  "notesOfJsonList [] = Some []"
| "notesOfJsonList (v # vs) =
     (case (noteOfJson v, notesOfJsonList vs) of
        (Some n, Some ns) \<Rightarrow> Some (n # ns)
      | _ \<Rightarrow> None)"

definition importNotes :: "js_string \<Rightarrow> Note list option" where
  "importNotes doc =
     (case JSON_parse doc of Some (JArray vs) \<Rightarrow> notesOfJsonList vs | _ \<Rightarrow> None)"

subsection \<open>Example states and events\<close>

text \<open>
  The state \<open>initialize\<close> leaves on a first launch: the database open and empty, a
  fresh blank note in the editor, nothing recording, no timer pending.
\<close>

definition blankNote :: Note where
  "blankNote = \<lparr>note_id = None, title = [], note_text = [], summary = Undefined,
                language = js ''en'', timestamp = 0, tags = []\<rparr>"

definition initialApp :: app where
  "initialApp =
     \<lparr>db = Some emptyStore, currentNote = Some blankNote, isRecording = False,
      recognition = None, lastFinalizedLength = 0, isRecognitionStarting = False,
      currentLanguage = js ''en'', saveTimeout = None, isMobileDevice = False,
      interimTranscript = [], finalTranscript = [], noteTitleInput = [],
      noteTextArea = \<lparr>ta_value = [], selectionStart = 0\<rparr>, noteStatus = StatusBlank,
      liveTranscriptionText = [], statusLog = [], online = True, speechSupported = True,
      clock = 0, timers = [], nextTimerId = 1, startCalls = 0, stopCalls = 0, saveLog = []\<rparr>"

definition withText :: "js_string \<Rightarrow> nat \<Rightarrow> app \<Rightarrow> app" where
  "withText v c s = s\<lparr>noteTextArea := \<lparr>ta_value = v, selectionStart = c\<rparr>\<rparr>"

definition finalSlot :: "string \<Rightarrow> speech_result" where
  "finalSlot w = \<lparr>transcript = js w, isFinal = True\<rparr>"

definition interimSlot :: "string \<Rightarrow> speech_result" where
  "interimSlot w = \<lparr>transcript = js w, isFinal = False\<rparr>"

definition eventOf :: "speech_result list \<Rightarrow> recognition_event" where
  "eventOf rs = \<lparr>resultIndex = 0, results = rs\<rparr>"

text \<open>
  A burst of five mutations: three edits of the text, one of the title and one dictated
  word, each less than a second after the one before.
\<close>

definition firstEdit :: mutation where
  "firstEdit = TextInput (js ''h'') 1"

definition laterEdits :: "(nat \<times> mutation) list" where
  "laterEdits =
     [(200, TextInput (js ''he'') 2), (300, TitleInput (js ''T'')),
      (999, TextInput (js ''hey'') 3), (100, Dictated (js ''you''))]"

text \<open>
  The list \<open>getAllNotes\<close> returns once the hybrid variant has saved \<open>noteS\<close> into the
  store of two notes.
\<close>

definition listedExample :: "Note list" where
  "listedExample =
     [(sanitizedNote_hybrid noteS)\<lparr>note_id := Some 3\<rparr>, (sanitizedNote noteB)\<lparr>note_id := Some 2\<rparr>,
      (sanitizedNote noteA)\<lparr>note_id := Some 1\<rparr>]"

section \<open>Properties of the persistence gateway\<close>

subsection \<open>Records kept in key order\<close>

lemma map_of_put_record: "map_of (put_record k v rs) k = Some v"
  by (induction rs) auto

lemma keys_put_record: "fst ` set (put_record k v rs) = insert k (fst ` set rs)"
proof (induction rs)
  case Nil then show ?case by simp
next
  case (Cons r rs)
  obtain a b where r: "r = (a, b)" by (cases r)
  show ?case unfolding r using Cons.IH by (simp add: insert_commute)
qed

lemma set_put_record: "set (put_record k v rs) \<subseteq> insert (k, v) (set rs)"
  by (induction rs) (auto split: if_splits)

lemma sorted_put_record:
  "sorted_wrt (<) (map fst rs) \<Longrightarrow> sorted_wrt (<) (map fst (put_record k v rs))"
proof (induction rs)
  case Nil then show ?case by simp
next
  case (Cons r rs)
  then show ?case
    using keys_put_record[of k v rs] by (cases r) auto
qed

lemma put_record_append:
  "\<forall>k' \<in> fst ` set rs. k' < k \<Longrightarrow> put_record k v rs = rs @ [(k, v)]"
  by (induction rs) auto

lemma put_record_keys_same:
  "k \<in> fst ` set rs \<Longrightarrow> sorted_wrt (<) (map fst rs) \<Longrightarrow> map fst (put_record k v rs) = map fst rs"
  by (induction rs) fastforce+

lemma wf_emptyStore: "wf_store emptyStore"
  by (simp add: wf_store_def emptyStore_def)

lemma wf_store_keys_below: "wf_store st \<Longrightarrow> k \<in> fst ` set (records st) \<Longrightarrow> 0 < k \<and> k < keyGenerator st"
  by (auto simp: wf_store_def list_all_iff)

lemma wf_store_put:
  assumes "wf_store st" "0 < k" "note_id v = Some k"
  shows "wf_store (snd (store_put k v st))"
proof -
  let ?g = "if keyGenerator st \<le> k then Suc k else keyGenerator st"
  have g: "keyGenerator st \<le> ?g" "k < ?g" by auto
  have "\<forall>r \<in> set (put_record k v (records st)).
          0 < fst r \<and> fst r < ?g \<and> note_id (snd r) = Some (fst r)"
  proof
    fix r assume "r \<in> set (put_record k v (records st))"
    then have "r = (k, v) \<or> r \<in> set (records st)"
      using set_put_record[of k v "records st"] by auto
    then show "0 < fst r \<and> fst r < ?g \<and> note_id (snd r) = Some (fst r)"
      using assms g by (auto simp: wf_store_def list_all_iff)
  qed
  then show ?thesis
    using assms(1) sorted_put_record[of "records st" k v]
    by (simp add: wf_store_def store_put_def list_all_iff)
qed

lemma store_add_wf:
  assumes "wf_store st"
  shows "store_add v st =
           Inr (keyGenerator st,
                \<lparr>records = records st @ [(keyGenerator st, v\<lparr>note_id := Some (keyGenerator st)\<rparr>)],
                 keyGenerator = Suc (keyGenerator st)\<rparr>)"
proof -
  have below: "\<forall>k' \<in> fst ` set (records st). k' < keyGenerator st"
    using assms wf_store_keys_below by blast
  then have "keyGenerator st \<notin> fst ` set (records st)" by blast
  then show ?thesis
    using put_record_append[OF below] by (simp add: store_add_def Let_def)
qed

lemma wf_store_add:
  assumes "wf_store st" "store_add v st = Inr (k, st')"
  shows "wf_store st'"
proof -
  have st': "st' = \<lparr>records = records st @ [(keyGenerator st, v\<lparr>note_id := Some (keyGenerator st)\<rparr>)],
                     keyGenerator = Suc (keyGenerator st)\<rparr>"
    using assms(2) store_add_wf[OF assms(1), of v] by auto
  show ?thesis
    using assms(1) unfolding st'
    by (auto simp: wf_store_def list_all_iff sorted_wrt_append)
qed

lemma wf_store_delete: "wf_store st \<Longrightarrow> wf_store (store_delete i st)"
  by (auto simp: wf_store_def store_delete_def list_all_iff sorted_wrt_filter sorted_wrt_map)

lemma writeNote_put:
  "truthy_id (note_id n) \<Longrightarrow> note_id n = Some k \<Longrightarrow>
   writeNote n sn (Some st) = (Inr k, Some (snd (store_put k (sn\<lparr>note_id := Some k\<rparr>) st)))"
  by (simp add: writeNote_def store_put_def)

lemma writeNote_add:
  "\<not> truthy_id (note_id n) \<Longrightarrow> wf_store st \<Longrightarrow>
   writeNote n sn (Some st) =
     (Inr (keyGenerator st),
      Some \<lparr>records = records st @ [(keyGenerator st, sn\<lparr>note_id := Some (keyGenerator st)\<rparr>)],
            keyGenerator = Suc (keyGenerator st)\<rparr>)"
  by (simp add: writeNote_def store_add_wf)

lemma writeNote_wf:
  assumes "wf_store st"
  shows "\<exists>k st'. writeNote n sn (Some st) = (Inr k, Some st') \<and> wf_store st' \<and>
                  keyGenerator st \<le> keyGenerator st' \<and>
                  fst ` set (records st') = insert k (fst ` set (records st)) \<and>
                  (truthy_id (note_id n) \<longrightarrow> note_id n = Some k) \<and>
                  (\<not> truthy_id (note_id n) \<longrightarrow> k = keyGenerator st)"
proof (cases "truthy_id (note_id n)")
  case True
  then obtain k where k: "note_id n = Some k" "0 < k" by (cases "note_id n") auto
  let ?st' = "snd (store_put k (sn\<lparr>note_id := Some k\<rparr>) st)"
  have "wf_store ?st'" using assms k by (intro wf_store_put) auto
  moreover have "keyGenerator st \<le> keyGenerator ?st'" by (simp add: store_put_def)
  moreover have "fst ` set (records ?st') = insert k (fst ` set (records st))"
    by (simp add: store_put_def keys_put_record)
  ultimately show ?thesis using writeNote_put[OF True k(1)] True k by auto
next
  case False
  let ?k = "keyGenerator st"
  let ?st' = "\<lparr>records = records st @ [(?k, sn\<lparr>note_id := Some ?k\<rparr>)], keyGenerator = Suc ?k\<rparr>"
  have "store_add sn st = Inr (?k, ?st')" using store_add_wf[OF assms] by simp
  then have "wf_store ?st'" using wf_store_add[OF assms] by blast
  then show ?thesis using writeNote_add[OF False assms] False by auto
qed

lemma save_variant_writeNote:
  "save_variant hybrid n dbs =
     writeNote n (if hybrid then sanitizedNote_hybrid n else sanitizedNote n) dbs"
  by (simp add: save_variant_def saveNote_def saveNote_hybrid_def)

lemma apply_op_wf:
  assumes "wf_store st"
  shows "\<exists>st'. apply_op hybrid op (Some st) = Some st' \<and> wf_store st' \<and>
               keyGenerator st \<le> keyGenerator st'"
proof (cases op)
  case (Save n)
  then show ?thesis
    using writeNote_wf[OF assms, of n "if hybrid then sanitizedNote_hybrid n else sanitizedNote n"]
    by (auto simp: save_variant_writeNote)
next
  case (Delete i)
  then show ?thesis
    using wf_store_delete[OF assms, of i] by (simp add: deleteNote_def store_delete_def)
qed

lemma run_ops_wf:
  "wf_store st \<Longrightarrow> \<exists>st'. run_ops hybrid ops (Some st) = Some st' \<and> wf_store st'"
proof (induction ops arbitrary: st)
  case Nil
  then show ?case by (simp add: run_ops_def)
next
  case (Cons op ops)
  obtain st1 where st1: "apply_op hybrid op (Some st) = Some st1" "wf_store st1"
    using apply_op_wf[OF Cons.prems] by blast
  show ?case using Cons.IH[OF st1(2)] st1(1) by (simp add: run_ops_def)
qed

lemma listed_ids_wf:
  assumes "wf_store st"
  shows "listed_ids (Some st) = map Some (rev (map fst (records st)))"
proof -
  have "map (\<lambda>r. note_id (snd r)) (records st) = map (\<lambda>r. Some (fst r)) (records st)"
    using assms by (intro map_cong) (auto simp: wf_store_def list_all_iff)
  then show ?thesis
    by (simp add: listed_ids_def getAllNotes_def store_getAll_def rev_map comp_def)
qed

lemma apply_op_absent:
  assumes wf: "wf_store st" and below: "i < keyGenerator st"
    and absent: "i \<notin> fst ` set (records st)" and other: "\<not> names_id i op"
    and step: "apply_op hybrid op (Some st) = Some st'"
  shows "i < keyGenerator st' \<and> i \<notin> fst ` set (records st')"
proof (cases op)
  case (Save n)
  obtain k st2 where w: "writeNote n (if hybrid then sanitizedNote_hybrid n else sanitizedNote n) (Some st)
        = (Inr k, Some st2)" "keyGenerator st \<le> keyGenerator st2"
      "fst ` set (records st2) = insert k (fst ` set (records st))"
      "truthy_id (note_id n) \<longrightarrow> note_id n = Some k"
      "\<not> truthy_id (note_id n) \<longrightarrow> k = keyGenerator st"
    using writeNote_wf[OF wf] by blast
  have "st' = st2" using step Save w(1) by (simp add: save_variant_writeNote)
  moreover have "k \<noteq> i" using w(4,5) other Save below by (cases "truthy_id (note_id n)") auto
  ultimately show ?thesis using w(2,3) below absent by auto
next
  case (Delete j)
  then show ?thesis
    using step below absent by (auto simp: deleteNote_def store_delete_def)
qed

lemma run_ops_absent:
  assumes "wf_store st" "i < keyGenerator st" "i \<notin> fst ` set (records st)"
    and "list_all (\<lambda>op. \<not> names_id i op) ops" "run_ops hybrid ops (Some st) = Some st'"
  shows "i \<notin> fst ` set (records st')"
  using assms
proof (induction ops arbitrary: st)
  case Nil
  then show ?case by (simp add: run_ops_def)
next
  case (Cons op ops)
  obtain st1 where st1: "apply_op hybrid op (Some st) = Some st1" "wf_store st1"
    using apply_op_wf[OF Cons.prems(1)] by blast
  have "i < keyGenerator st1 \<and> i \<notin> fst ` set (records st1)"
    using apply_op_absent[OF Cons.prems(1,2,3) _ st1(1)] Cons.prems(4) by simp
  moreover have "run_ops hybrid ops (Some st1) = Some st'"
    using Cons.prems(5) st1(1) by (simp add: run_ops_def)
  ultimately show ?case using Cons.IH[OF st1(2)] Cons.prems(4) by simp
qed

lemma run_ops_append: "run_ops hybrid (xs @ ys) dbs = run_ops hybrid ys (run_ops hybrid xs dbs)"
  by (simp add: run_ops_def)

text \<open>The definitions a concrete run of the gateway unfolds.\<close>

lemmas gateway_eval =
  run_ops_def save_variant_def saveNote_def saveNote_hybrid_def writeNote_def store_put_def
  store_add_def sanitizedNote_def sanitizedNote_hybrid_def sanitizeInput_def escapeCodeUnit_def
  js_def emptyStore_def deleteNote_def store_delete_def getAllNotes_def store_getAll_def
  listed_ids_def getNote_def store_get_def Let_def

subsection \<open>Claim C1: what the list returns after saves and deletes\<close>

text \<open>
  C1, as stated, fails on the code. Two notes are inserted and the first one is then
  updated (the user opens the older note and edits it). The last save resolves with id 1,
  yet \<open>getAllNotes\<close> returns the note with id 2 first: \<open>put\<close> leaves the record
  under its key, and reversing the key order puts the largest id first, not the note
  saved last.
\<close>

theorem list_first_not_last_saved:
  "fst (saveNote noteA_edited (run_ops False [Save noteA, Save noteB] (Some emptyStore))) = Inr 1 \<and>
   listed_ids (run_ops False [Save noteA, Save noteB, Save noteA_edited] (Some emptyStore))
     = [Some 2, Some 1] \<and>
   getAllNotes (run_ops False [Save noteA, Save noteB, Save noteA_edited] (Some emptyStore))
     = Inr [(sanitizedNote noteB)\<lparr>note_id := Some 2\<rparr>, (sanitizedNote noteA_edited)\<lparr>note_id := Some 1\<rparr>]"
  by (simp add: gateway_eval noteA_def noteB_def noteA_edited_def)

text \<open>
  C1, amended. After any sequence of saves and deletes on an initially empty store,
  \<open>getAllNotes\<close> returns the stored notes in strictly descending id order. A note that
  was listed and then deleted is not returned again unless a later save names its id. A
  note saved without an id is returned first. Updating a listed note leaves the order of
  the ids unchanged, so the first note is the one with the largest id, not the one saved
  last.
\<close>

theorem getAllNotes_descending_ids:
  assumes dbs: "dbs = run_ops hybrid ops (Some emptyStore)"
  shows "(\<exists>ks. listed_ids dbs = map Some ks \<and> sorted_wrt (\<lambda>a b. b < a) ks) \<and>
    (\<forall>pre i post. ops = pre @ Delete i # post \<and>
        Some i \<in> set (listed_ids (run_ops hybrid pre (Some emptyStore))) \<and>
        list_all (\<lambda>op. \<not> names_id i op) post \<longrightarrow> Some i \<notin> set (listed_ids dbs)) \<and>
    (\<forall>n. \<not> truthy_id (note_id n) \<longrightarrow>
        (\<exists>k db' ns. save_variant hybrid n dbs = (Inr k, db') \<and> getAllNotes dbs = Inr ns \<and>
           getAllNotes db' =
             Inr ((if hybrid then sanitizedNote_hybrid n else sanitizedNote n)\<lparr>note_id := Some k\<rparr> # ns))) \<and>
    (\<forall>n k. note_id n = Some k \<and> Some k \<in> set (listed_ids dbs) \<longrightarrow>
        listed_ids (apply_op hybrid (Save n) dbs) = listed_ids dbs)"
proof -
  obtain st where st: "dbs = Some st" "wf_store st"
    using run_ops_wf[OF wf_emptyStore] dbs by metis
  have ids: "listed_ids dbs = map Some (rev (map fst (records st)))"
    using listed_ids_wf st by simp
  have sorted: "sorted_wrt (\<lambda>a b. b < a) (rev (map fst (records st)))"
    using st(2) by (simp add: wf_store_def sorted_wrt_rev)
  have descending: "\<exists>ks. listed_ids dbs = map Some ks \<and> sorted_wrt (\<lambda>a b. b < a) ks"
    using ids sorted by blast
  have deleted: "Some i \<notin> set (listed_ids dbs)"
    if ops: "ops = pre @ Delete i # post"
      and listed: "Some i \<in> set (listed_ids (run_ops hybrid pre (Some emptyStore)))"
      and other: "list_all (\<lambda>op. \<not> names_id i op) post" for pre i post
  proof -
    obtain s1 where s1: "run_ops hybrid pre (Some emptyStore) = Some s1" "wf_store s1"
      using run_ops_wf[OF wf_emptyStore] by blast
    have "i \<in> fst ` set (records s1)"
      using listed s1 listed_ids_wf[OF s1(2)] by auto
    then have below: "i < keyGenerator s1" using wf_store_keys_below[OF s1(2)] by blast
    let ?s2 = "store_delete i s1"
    have s2: "wf_store ?s2" "i < keyGenerator ?s2" "i \<notin> fst ` set (records ?s2)"
      using wf_store_delete[OF s1(2)] below by (auto simp: store_delete_def)
    have "run_ops hybrid post (Some ?s2) = Some st"
      using dbs st(1) ops s1(1) by (simp add: run_ops_def deleteNote_def)
    then have "i \<notin> fst ` set (records st)"
      using run_ops_absent[OF s2 other] by blast
    then show ?thesis using ids by auto
  qed
  have inserted: "\<exists>k db' ns. save_variant hybrid n dbs = (Inr k, db') \<and> getAllNotes dbs = Inr ns \<and>
           getAllNotes db' =
             Inr ((if hybrid then sanitizedNote_hybrid n else sanitizedNote n)\<lparr>note_id := Some k\<rparr> # ns)"
    if "\<not> truthy_id (note_id n)" for n
    using writeNote_add[OF that st(2)] st(1)
    by (simp add: save_variant_writeNote getAllNotes_def store_getAll_def)
  have updated: "listed_ids (apply_op hybrid (Save n) dbs) = listed_ids dbs"
    if n: "note_id n = Some k" and listed: "Some k \<in> set (listed_ids dbs)" for n k
  proof -
    have k: "k \<in> fst ` set (records st)" using listed ids by auto
    then have "0 < k" using wf_store_keys_below[OF st(2)] by blast
    then have truthy: "truthy_id (note_id n)" using n by simp
    let ?sn = "(if hybrid then sanitizedNote_hybrid n else sanitizedNote n)\<lparr>note_id := Some k\<rparr>"
    let ?st' = "snd (store_put k ?sn st)"
    have step: "apply_op hybrid (Save n) dbs = Some ?st'"
      using writeNote_put[OF truthy n] st(1) by (simp add: save_variant_writeNote)
    have "wf_store ?st'" using st(2) \<open>0 < k\<close> by (intro wf_store_put) auto
    moreover have "map fst (records ?st') = map fst (records st)"
      using put_record_keys_same[OF k] st(2) by (simp add: store_put_def wf_store_def)
    ultimately show ?thesis using step ids listed_ids_wf by simp
  qed
  show ?thesis using descending deleted inserted updated by blast
qed

text \<open>
  The amended C1 at a concrete run: two inserts, the deletion of note 1, a third insert,
  and an update of note 2.
\<close>

theorem getAllNotes_descending_ids_witness:
  "Some 1 \<in> set (listed_ids (run_ops False [Save noteA, Save noteB] (Some emptyStore))) \<and>
   list_all (\<lambda>op. \<not> names_id 1 op) [Save noteB] \<and>
   Some 1 \<notin> set (listed_ids
      (run_ops False [Save noteA, Save noteB, Delete 1, Save noteB] (Some emptyStore))) \<and>
   listed_ids (run_ops False [Save noteA, Save noteB, Delete 1, Save noteB] (Some emptyStore))
     = [Some 3, Some 2] \<and>
   note_id (noteB\<lparr>note_id := Some 2\<rparr>) = Some 2 \<and>
   listed_ids (apply_op False (Save (noteB\<lparr>note_id := Some 2\<rparr>))
      (run_ops False [Save noteA, Save noteB, Delete 1, Save noteB] (Some emptyStore)))
     = listed_ids (run_ops False [Save noteA, Save noteB, Delete 1, Save noteB] (Some emptyStore))"
proof -
  let ?ops = "[Save noteA, Save noteB, Delete 1, Save noteB]"
  let ?dbs = "run_ops False ?ops (Some emptyStore)"
  note T = getAllNotes_descending_ids[OF refl, of False ?ops]
  have split: "?ops = [Save noteA, Save noteB] @ Delete 1 # [Save noteB]" by simp
  have listed: "Some 1 \<in> set (listed_ids (run_ops False [Save noteA, Save noteB] (Some emptyStore)))"
    by (simp add: gateway_eval noteA_def noteB_def)
  have other: "list_all (\<lambda>op. \<not> names_id 1 op) [Save noteB]"
    by (simp add: noteB_def)
  have gone: "Some 1 \<notin> set (listed_ids ?dbs)"
    using T split listed other by blast
  have ids: "listed_ids ?dbs = [Some 3, Some 2]"
    by (simp add: gateway_eval noteA_def noteB_def)
  have upd: "listed_ids (apply_op False (Save (noteB\<lparr>note_id := Some 2\<rparr>)) ?dbs) = listed_ids ?dbs"
  proof -
    have "Some 2 \<in> set (listed_ids ?dbs)" using ids by simp
    moreover have "note_id (noteB\<lparr>note_id := Some 2\<rparr>) = Some 2" by simp
    ultimately show ?thesis using T by blast
  qed
  show ?thesis using listed other gone ids upd by simp
qed

subsection \<open>Claim C7: save writes the escaped fields\<close>

lemma getNote_after_write:
  assumes "writeNote n sn (Some st) = (Inr k, db')"
  shows "getNote k db' = Inr (Some (sn\<lparr>note_id := Some k\<rparr>)) \<and>
         (truthy_id (note_id n) \<longrightarrow> note_id n = Some k)"
proof (cases "truthy_id (note_id n)")
  case True
  then obtain j where j: "note_id n = Some j" by (cases "note_id n") auto
  have "k = j" "db' = Some (snd (store_put j (sn\<lparr>note_id := Some j\<rparr>) st))"
    using assms writeNote_put[OF True j, of sn st] by auto
  then show ?thesis
    using j by (simp add: getNote_def store_get_def store_put_def map_of_put_record)
next
  case False
  then have "store_add sn st = Inr (k, the db') \<and> db' = Some (the db')"
    using assms by (auto simp: writeNote_def split: sum.splits)
  then have "k = keyGenerator st \<and>
      db' = Some \<lparr>records = put_record k (sn\<lparr>note_id := Some k\<rparr>) (records st), keyGenerator = Suc k\<rparr>"
    by (auto simp: store_add_def Let_def split: if_splits)
  then show ?thesis
    using False by (simp add: getNote_def store_get_def map_of_put_record)
qed

text \<open>
  C7. Whenever \<open>saveNote\<close> resolves with an id, the record stored under that id has
  the escaped title and the escaped text of the note passed in; in the hybrid variant its
  summary is the escaped summary when the note has a non-empty one. This holds for an
  insert (no id) and for an update (id set) alike, and on a well-formed store the save
  does resolve: with the note's own id for an update, with the key generator's number
  for an insert.
\<close>

theorem saveNote_persists_sanitized:
  "(\<forall>k db'. saveNote n (Some st) = (Inr k, db') \<longrightarrow>
      (\<exists>r. getNote k db' = Inr (Some r) \<and> note_id r = Some k \<and>
           title r = sanitizeInput (title n) \<and> note_text r = sanitizeInput (note_text n))) \<and>
   (\<forall>k db'. saveNote_hybrid n (Some st) = (Inr k, db') \<longrightarrow>
      (\<exists>r. getNote k db' = Inr (Some r) \<and> note_id r = Some k \<and>
           title r = sanitizeInput (title n) \<and> note_text r = sanitizeInput (note_text n) \<and>
           (\<forall>s. summary n = Str s \<and> s \<noteq> [] \<longrightarrow> summary r = Str (sanitizeInput s)))) \<and>
   (wf_store st \<longrightarrow>
      (\<exists>k db'. saveNote n (Some st) = (Inr k, db') \<and>
         (if truthy_id (note_id n) then note_id n = Some k else k = keyGenerator st)) \<and>
      (\<exists>k db'. saveNote_hybrid n (Some st) = (Inr k, db') \<and>
         (if truthy_id (note_id n) then note_id n = Some k else k = keyGenerator st)))"
proof (intro conjI allI impI)
  fix k db'
  assume "saveNote n (Some st) = (Inr k, db')"
  then have "getNote k db' = Inr (Some ((sanitizedNote n)\<lparr>note_id := Some k\<rparr>))"
    using getNote_after_write by (simp add: saveNote_def)
  then show "\<exists>r. getNote k db' = Inr (Some r) \<and> note_id r = Some k \<and>
           title r = sanitizeInput (title n) \<and> note_text r = sanitizeInput (note_text n)"
    by (simp add: sanitizedNote_def)
next
  fix k db'
  assume "saveNote_hybrid n (Some st) = (Inr k, db')"
  then have "getNote k db' = Inr (Some ((sanitizedNote_hybrid n)\<lparr>note_id := Some k\<rparr>))"
    using getNote_after_write by (simp add: saveNote_hybrid_def)
  then show "\<exists>r. getNote k db' = Inr (Some r) \<and> note_id r = Some k \<and>
           title r = sanitizeInput (title n) \<and> note_text r = sanitizeInput (note_text n) \<and>
           (\<forall>s. summary n = Str s \<and> s \<noteq> [] \<longrightarrow> summary r = Str (sanitizeInput s))"
    by (simp add: sanitizedNote_hybrid_def)
next
  assume wf: "wf_store st"
  show "\<exists>k db'. saveNote n (Some st) = (Inr k, db') \<and>
         (if truthy_id (note_id n) then note_id n = Some k else k = keyGenerator st)"
    using writeNote_wf[OF wf, of n "sanitizedNote n"] by (auto simp: saveNote_def)
  show "\<exists>k db'. saveNote_hybrid n (Some st) = (Inr k, db') \<and>
         (if truthy_id (note_id n) then note_id n = Some k else k = keyGenerator st)"
    using writeNote_wf[OF wf, of n "sanitizedNote_hybrid n"] by (auto simp: saveNote_hybrid_def)
qed

text \<open>
  C7 at concrete notes: an update of note 1 in a store of two notes, and an insert of a
  note with a summary through the hybrid variant.
\<close>

theorem saveNote_persists_sanitized_witness:
  "saveNote noteA_edited (Some storeAB) = (Inr 1, snd (saveNote noteA_edited (Some storeAB))) \<and>
   (\<exists>r. getNote 1 (snd (saveNote noteA_edited (Some storeAB))) = Inr (Some r) \<and>
        note_id r = Some 1 \<and> title r = sanitizeInput (title noteA_edited) \<and>
        note_text r = sanitizeInput (note_text noteA_edited)) \<and>
   saveNote_hybrid noteS (Some storeAB) = (Inr 3, snd (saveNote_hybrid noteS (Some storeAB))) \<and>
   summary noteS = Str (js ''x<y'') \<and>
   (\<exists>r. getNote 3 (snd (saveNote_hybrid noteS (Some storeAB))) = Inr (Some r) \<and>
        title r = js ''Q&amp;A'' \<and> note_text r = js ''a &gt; b'' \<and>
        summary r = Str (js ''x&lt;y'')) \<and>
   wf_store storeAB \<and>
   (\<exists>k db'. saveNote noteS (Some storeAB) = (Inr k, db') \<and> k = 3)"
proof -
  have s1: "saveNote noteA_edited (Some storeAB) = (Inr 1, snd (saveNote noteA_edited (Some storeAB)))"
    by (simp add: gateway_eval noteA_edited_def storeAB_def)
  have r1: "\<exists>r. getNote 1 (snd (saveNote noteA_edited (Some storeAB))) = Inr (Some r) \<and>
        note_id r = Some 1 \<and> title r = sanitizeInput (title noteA_edited) \<and>
        note_text r = sanitizeInput (note_text noteA_edited)"
    using saveNote_persists_sanitized[of noteA_edited storeAB] s1 by blast
  have s2: "saveNote_hybrid noteS (Some storeAB) = (Inr 3, snd (saveNote_hybrid noteS (Some storeAB)))"
    by (simp add: gateway_eval noteS_def storeAB_def)
  have sm: "summary noteS = Str (js ''x<y'')" "js ''x<y'' \<noteq> []"
    by (simp_all add: noteS_def js_def)
  have "\<exists>r. getNote 3 (snd (saveNote_hybrid noteS (Some storeAB))) = Inr (Some r) \<and>
        title r = sanitizeInput (title noteS) \<and> note_text r = sanitizeInput (note_text noteS) \<and>
        summary r = Str (sanitizeInput (js ''x<y''))"
    using saveNote_persists_sanitized[of noteS storeAB] s2 sm by blast
  moreover have "sanitizeInput (title noteS) = js ''Q&amp;A''"
      "sanitizeInput (note_text noteS) = js ''a &gt; b''" "sanitizeInput (js ''x<y'') = js ''x&lt;y''"
    by (simp_all add: noteS_def sanitizeInput_def escapeCodeUnit_def js_def)
  ultimately have r2: "\<exists>r. getNote 3 (snd (saveNote_hybrid noteS (Some storeAB))) = Inr (Some r) \<and>
        title r = js ''Q&amp;A'' \<and> note_text r = js ''a &gt; b'' \<and>
        summary r = Str (js ''x&lt;y'')"
    by simp
  have wf: "wf_store storeAB"
    by (simp add: wf_store_def storeAB_def sanitizedNote_def)
  have nt: "\<not> truthy_id (note_id noteS)" "keyGenerator storeAB = 3"
    by (simp_all add: noteS_def storeAB_def)
  have r3: "\<exists>k db'. saveNote noteS (Some storeAB) = (Inr k, db') \<and> k = 3"
    using saveNote_persists_sanitized[of noteS storeAB] wf nt by auto
  show ?thesis using s1 r1 s2 sm(1) r2 wf r3 by blast
qed

subsection \<open>Claim C8: deleting an id that is not stored\<close>

text \<open>
  C8. With the database open, \<open>deleteNote\<close> resolves for every id. When no record
  has the id the store is left as it was, and deleting the same id a second time resolves
  again and leaves the same store as deleting it once.
\<close>

theorem deleteNote_missing_id_succeeds:
  "fst (deleteNote i (Some st)) = Inr () \<and>
   (i \<notin> fst ` set (records st) \<longrightarrow> snd (deleteNote i (Some st)) = Some st) \<and>
   deleteNote i (snd (deleteNote i (Some st))) = deleteNote i (Some st)"
proof (intro conjI impI)
  show "fst (deleteNote i (Some st)) = Inr ()" by (simp add: deleteNote_def)
next
  assume "i \<notin> fst ` set (records st)"
  then have "filter (\<lambda>r. fst r \<noteq> i) (records st) = records st"
    by (intro filter_True) auto
  then show "snd (deleteNote i (Some st)) = Some st"
    by (simp add: deleteNote_def store_delete_def)
next
  show "deleteNote i (snd (deleteNote i (Some st))) = deleteNote i (Some st)"
    by (simp add: deleteNote_def store_delete_def)
qed

text \<open>
  C8 at id 7 in a store that holds the ids 1 and 2.
\<close>

theorem deleteNote_missing_id_succeeds_witness:
  "7 \<notin> fst ` set (records storeAB) \<and>
   fst (deleteNote 7 (Some storeAB)) = Inr () \<and>
   snd (deleteNote 7 (Some storeAB)) = Some storeAB \<and>
   deleteNote 7 (snd (deleteNote 7 (Some storeAB))) = (Inr (), Some storeAB)"
proof -
  have absent: "7 \<notin> fst ` set (records storeAB)" by (simp add: storeAB_def)
  note T = deleteNote_missing_id_succeeds[of 7 storeAB]
  have once: "snd (deleteNote 7 (Some storeAB)) = Some storeAB" using T absent by blast
  have ok: "fst (deleteNote 7 (Some storeAB)) = Inr ()" using T by blast
  have "deleteNote 7 (snd (deleteNote 7 (Some storeAB))) = deleteNote 7 (Some storeAB)"
    using T by blast
  also have "\<dots> = (Inr (), Some storeAB)" using once ok by (metis prod.collapse)
  finally show ?thesis using absent once ok by blast
qed



section \<open>Properties of transcript assembly\<close>

subsection \<open>The insertion block and the handlers\<close>

lemma scheduleAutoSave_keeps [simp]:
  "noteTextArea (scheduleAutoSave s) = noteTextArea s"
  "currentNote (scheduleAutoSave s) = currentNote s"
  "lastFinalizedLength (scheduleAutoSave s) = lastFinalizedLength s"
  "noteTitleInput (scheduleAutoSave s) = noteTitleInput s"
  "db (scheduleAutoSave s) = db s"
  "saveLog (scheduleAutoSave s) = saveLog s"
  "clock (scheduleAutoSave s) = clock s"
  "isRecording (scheduleAutoSave s) = isRecording s"
  "startCalls (scheduleAutoSave s) = startCalls s"
  by (simp_all add: scheduleAutoSave_def setTimeout_def clearTimeout_def Let_def
        split: option.splits)

lemma desktopLoop_concat:
  "desktopLoop rs (i, f) =
     (i @ concat (map transcript (filter (\<lambda>r. \<not> isFinal r) rs)),
      f @ concat (map (\<lambda>r. transcript r @ [0x20]) (filter isFinal rs)))"
  by (induction rs arbitrary: i f) auto

lemma finalTextOf_concat:
  "finalTextOf event = concat (map (\<lambda>r. transcript r @ [0x20]) (filter isFinal (results event)))"
  by (simp add: finalTextOf_def desktopLoop_concat)

lemma needsSpace_iff:
  "needsSpace xs = (xs \<noteq> [] \<and> last xs \<noteq> 0x20 \<and> last xs \<noteq> 0x0A)"
  by (auto simp: needsSpace_def endsWith_def)

lemma normalizeNewlines_Cons:
  "c \<noteq> 0x0D \<Longrightarrow> normalizeNewlines (c # xs) = c # normalizeNewlines xs"
  by (cases xs) simp_all

lemma normalizeNewlines_id: "0x0D \<notin> set xs \<Longrightarrow> normalizeNewlines xs = xs"
  by (induction xs) (simp_all add: normalizeNewlines_Cons)

lemma normalizeNewlines_append_plain:
  "0x0D \<notin> set xs \<Longrightarrow> normalizeNewlines (xs @ ys) = xs @ normalizeNewlines ys"
  by (induction xs) (simp_all add: normalizeNewlines_Cons)

lemma normalizeNewlines_space:
  "normalizeNewlines (xs @ 0x20 # ys) = normalizeNewlines xs @ 0x20 # normalizeNewlines ys"
  by (induction xs rule: normalizeNewlines.induct) (simp_all add: normalizeNewlines_Cons)

lemma length_normalizeNewlines: "length (normalizeNewlines xs) \<le> length xs"
  by (induction xs rule: normalizeNewlines.induct) auto

lemma normalizeNewlines_splice:
  assumes "0x0D \<notin> set before" "0x0D \<notin> set after" "spacer = [] \<or> spacer = [0x20]"
  shows "normalizeNewlines (before @ spacer @ t @ [0x20] @ after)
           = before @ spacer @ normalizeNewlines t @ [0x20] @ after"
proof -
  have "normalizeNewlines (spacer @ t @ [0x20] @ after)
          = spacer @ normalizeNewlines t @ [0x20] @ after"
    using assms(2,3)
    by (auto simp: normalizeNewlines_space normalizeNewlines_id normalizeNewlines_Cons)
  then show ?thesis
    using normalizeNewlines_append_plain[OF assms(1)] by simp
qed

lemma insertTranscript_textarea:
  assumes v: "v = ta_value (noteTextArea s)"
    and cur: "cur = (if selectionStart (noteTextArea s) = 0 then length v else selectionStart (noteTextArea s))"
    and spacer: "spacer = (if take cur v \<noteq> [] \<and> last (take cur v) \<noteq> 0x20 \<and> last (take cur v) \<noteq> 0x0A
                   then [0x20] else [])"
  shows "noteTextArea (insertTranscript t s) =
           \<lparr>ta_value = normalizeNewlines (take cur v @ spacer @ t @ [0x20] @ drop cur v),
            selectionStart = min (length (take cur v @ spacer @ t @ [0x20]))
                                 (length (normalizeNewlines (take cur v @ spacer @ t @ [0x20] @ drop cur v)))\<rparr>"
    and "currentNote (insertTranscript t s) =
           map_option (\<lambda>n. n\<lparr>note_text := take cur v @ spacer @ t @ [0x20] @ drop cur v\<rparr>) (currentNote s)"
proof -
  let ?new = "take cur v @ spacer @ t @ [0x20] @ drop cur v"
  have c: "cursorPosOf (noteTextArea s) = cur"
    using v cur by (simp add: cursorPosOf_def)
  have sp: "(if needsSpace (take cur v) then [0x20] else []) = spacer"
    unfolding spacer needsSpace_iff by simp
  have unfold: "noteTextArea (insertTranscript t s) =
      \<lparr>ta_value = normalizeNewlines ?new,
       selectionStart = min (cur + length spacer + length t + 1) (length (normalizeNewlines ?new))\<rparr>"
    by (simp only: insertTranscript_def Let_def scheduleAutoSave_keeps c v[symmetric] sp)
       simp
  have "min (cur + length spacer + length t + 1) (length (normalizeNewlines ?new))
        = min (length (take cur v @ spacer @ t @ [0x20])) (length (normalizeNewlines ?new))"
  proof (cases "cur \<le> length v")
    case True
    then show ?thesis by (simp add: min_def)
  next
    case False
    then have "length ?new \<le> cur + length spacer + length t + 1"
      and "length ?new = length (take cur v @ spacer @ t @ [0x20])" by simp_all
    then show ?thesis using length_normalizeNewlines[of ?new] by (simp only: min_def) simp
  qed
  then show "noteTextArea (insertTranscript t s) =
           \<lparr>ta_value = normalizeNewlines ?new,
            selectionStart = min (length (take cur v @ spacer @ t @ [0x20]))
                                 (length (normalizeNewlines ?new))\<rparr>"
    using unfold by simp
  show "currentNote (insertTranscript t s) = map_option (\<lambda>n. n\<lparr>note_text := ?new\<rparr>) (currentNote s)"
    by (simp only: insertTranscript_def Let_def scheduleAutoSave_keeps c v[symmetric] sp)
       simp
qed

lemma insertTranscript_textarea_plain:
  assumes v: "v = ta_value (noteTextArea s)"
    and cur: "cur = (if selectionStart (noteTextArea s) = 0 then length v else selectionStart (noteTextArea s))"
    and spacer: "spacer = (if take cur v \<noteq> [] \<and> last (take cur v) \<noteq> 0x20 \<and> last (take cur v) \<noteq> 0x0A
                   then [0x20] else [])"
    and plain: "0x0D \<notin> set v"
  shows "ta_value (noteTextArea (insertTranscript t s)) =
           take cur v @ spacer @ normalizeNewlines t @ [0x20] @ drop cur v"
    and "0x0D \<notin> set t \<Longrightarrow> noteTextArea (insertTranscript t s) =
           \<lparr>ta_value = take cur v @ spacer @ t @ [0x20] @ drop cur v,
            selectionStart = length (take cur v @ spacer @ t @ [0x20])\<rparr>"
proof -
  have b: "0x0D \<notin> set (take cur v)" and a: "0x0D \<notin> set (drop cur v)"
    using plain by (auto dest: in_set_takeD in_set_dropD)
  have sp: "spacer = [] \<or> spacer = [0x20]" by (simp add: spacer)
  note N = normalizeNewlines_splice[OF b a sp, of t]
  show "ta_value (noteTextArea (insertTranscript t s)) =
           take cur v @ spacer @ normalizeNewlines t @ [0x20] @ drop cur v"
    using insertTranscript_textarea(1)[OF v cur spacer, of t] N by simp
  assume "0x0D \<notin> set t"
  then have "normalizeNewlines (take cur v @ spacer @ t @ [0x20] @ drop cur v)
               = take cur v @ spacer @ t @ [0x20] @ drop cur v"
    using N by (simp add: normalizeNewlines_id)
  then show "noteTextArea (insertTranscript t s) =
           \<lparr>ta_value = take cur v @ spacer @ t @ [0x20] @ drop cur v,
            selectionStart = length (take cur v @ spacer @ t @ [0x20])\<rparr>"
    using insertTranscript_textarea(1)[OF v cur spacer, of t] by simp
qed

lemma insertTranscript_hybrid_textarea:
  assumes v: "v = ta_value (noteTextArea s)" and c: "c = selectionStart (noteTextArea s)"
  shows "noteTextArea (insertTranscript_hybrid t s) =
           \<lparr>ta_value = normalizeNewlines (take c v @ t @ [0x20] @ drop c v),
            selectionStart = min (length (take c v @ t @ [0x20]))
                                 (length (normalizeNewlines (take c v @ t @ [0x20] @ drop c v)))\<rparr>"
proof -
  let ?new = "take c v @ t @ [0x20] @ drop c v"
  have unfold: "noteTextArea (insertTranscript_hybrid t s) =
      \<lparr>ta_value = normalizeNewlines ?new,
       selectionStart = min (c + length t + 1) (length (normalizeNewlines ?new))\<rparr>"
    by (simp only: insertTranscript_hybrid_def Let_def scheduleAutoSave_keeps c[symmetric] v[symmetric])
       simp
  have "min (c + length t + 1) (length (normalizeNewlines ?new))
        = min (length (take c v @ t @ [0x20])) (length (normalizeNewlines ?new))"
  proof (cases "c \<le> length v")
    case True
    then show ?thesis by (simp add: min_def)
  next
    case False
    then have "length ?new \<le> c + length t + 1"
      and "length ?new = length (take c v @ t @ [0x20])" by simp_all
    then show ?thesis using length_normalizeNewlines[of ?new] by (simp only: min_def) simp
  qed
  then show ?thesis using unfold by simp
qed

lemma insertTranscript_hybrid_textarea_plain:
  assumes v: "v = ta_value (noteTextArea s)" and c: "c = selectionStart (noteTextArea s)"
    and plain: "0x0D \<notin> set v" "0x0D \<notin> set t"
  shows "noteTextArea (insertTranscript_hybrid t s) =
           \<lparr>ta_value = take c v @ t @ [0x20] @ drop c v,
            selectionStart = length (take c v @ t @ [0x20])\<rparr>"
proof -
  have b: "0x0D \<notin> set (take c v)" and a: "0x0D \<notin> set (drop c v)"
    using plain(1) by (auto dest: in_set_takeD in_set_dropD)
  have "normalizeNewlines (take c v @ [] @ t @ [0x20] @ drop c v)
          = take c v @ [] @ normalizeNewlines t @ [0x20] @ drop c v"
    by (rule normalizeNewlines_splice[OF b a]) simp
  then have "normalizeNewlines (take c v @ t @ [0x20] @ drop c v) = take c v @ t @ [0x20] @ drop c v"
    using plain(2) by (simp add: normalizeNewlines_id)
  then show ?thesis
    using insertTranscript_hybrid_textarea[OF v c, of t] by simp
qed

lemma handleDesktopResults_unfold:
  "handleDesktopResults event s =
     (let s1 = (if length (finalTextOf event) > lastFinalizedLength s
                then (let newText = trim (drop (lastFinalizedLength s) (finalTextOf event));
                          s' = (if newText \<noteq> [] \<and> currentNote s \<noteq> None
                                then insertTranscript newText s else s)
                      in s'\<lparr>lastFinalizedLength := length (finalTextOf event)\<rparr>)
                else s)
      in if interimTextOf event \<noteq> [] then s1\<lparr>liveTranscriptionText := interimTextOf event\<rparr> else s1)"
  by (simp add: handleDesktopResults_def finalTextOf_def interimTextOf_def split: prod.splits)

lemma handleDesktopResults_insert:
  assumes "lastFinalizedLength s < length (finalTextOf event)"
    and "trim (drop (lastFinalizedLength s) (finalTextOf event)) = t" and "t \<noteq> []"
    and "currentNote s \<noteq> None"
  shows "noteTextArea (handleDesktopResults event s) = noteTextArea (insertTranscript t s)"
    and "lastFinalizedLength (handleDesktopResults event s) = length (finalTextOf event)"
    and "currentNote (handleDesktopResults event s) = currentNote (insertTranscript t s)"
  using assms by (simp_all add: handleDesktopResults_unfold Let_def)

lemma handleDesktopResults_skip:
  assumes "lastFinalizedLength s < length (finalTextOf event)"
    and "trim (drop (lastFinalizedLength s) (finalTextOf event)) = [] \<or> currentNote s = None"
  shows "noteTextArea (handleDesktopResults event s) = noteTextArea s"
    and "lastFinalizedLength (handleDesktopResults event s) = length (finalTextOf event)"
    and "currentNote (handleDesktopResults event s) = currentNote s"
  using assms by (auto simp add: handleDesktopResults_unfold Let_def)

lemma handleMobileResults_single:
  assumes "isFinal r" "trim (transcript r) = t" "t \<noteq> []" "currentNote s \<noteq> None"
  shows "handleMobileResults \<lparr>resultIndex = i, results = [r]\<rparr> s = insertTranscript t s"
  using assms by (simp add: handleMobileResults_def Let_def)

lemma onresult_hybrid_single:
  assumes "isFinal r" "currentNote s \<noteq> None"
  shows "noteTextArea (onresult_hybrid \<lparr>resultIndex = 0, results = [r]\<rparr> s) =
         noteTextArea (insertTranscript_hybrid (transcript r) s)"
proof -
  let ?s1 = "s\<lparr>interimTranscript := [], finalTranscript := finalTranscript s @ transcript r @ [0x20]\<rparr>"
  have "noteTextArea (onresult_hybrid \<lparr>resultIndex = 0, results = [r]\<rparr> s)
        = noteTextArea (insertTranscript_hybrid (transcript r) ?s1)"
    using assms by (simp add: onresult_hybrid_def Let_def)
  also have "\<dots> = noteTextArea (insertTranscript_hybrid (transcript r) s)"
    using insertTranscript_hybrid_textarea[OF refl refl, of "transcript r" ?s1]
          insertTranscript_hybrid_textarea[OF refl refl, of "transcript r" s]
    by simp
  finally show ?thesis .
qed

subsection \<open>Claim C4: the splice at the cursor\<close>

text \<open>
  The definitions a concrete run of the handlers unfolds.
\<close>

lemmas assembler_eval =
  handleMobileResults_def handleDesktopResults_def onresult_hybrid_def insertTranscript_def
  insertTranscript_hybrid_def cursorPosOf_def needsSpace_def endsWith_def scheduleAutoSave_def
  setTimeout_def clearTimeout_def Let_def trim_def is_js_space_def js_def initialApp_def
  withText_def finalSlot_def interimSlot_def eventOf_def finalTextOf_def interimTextOf_def

text \<open>
  C4, as stated, fails on the code. With the text \<open>a b\<close> and the cursor after
  \<open>a\<close>, inserting \<open>x\<close> in either mode gives \<open>a x  b\<close>: the appended trailing space
  meets the space the text after the cursor starts with, so there are two spaces at the
  splice point. With the cursor at offset 0 of \<open>abc\<close> the delta goes to the end of the
  text, not to the cursor. The hybrid variant inserts no leading space at all:
  \<open>hello\<close> dictated at the end of \<open>abc\<close> gives \<open>abchello \<close>.
\<close>

theorem splice_duplicates_trailing_space:
  "noteTextArea (handleMobileResults (eventOf [finalSlot ''x'']) (withText (js ''a b'') 1 initialApp))
     = \<lparr>ta_value = js ''a x  b'', selectionStart = 4\<rparr> \<and>
   noteTextArea (handleDesktopResults (eventOf [finalSlot ''x'']) (withText (js ''a b'') 1 initialApp))
     = \<lparr>ta_value = js ''a x  b'', selectionStart = 4\<rparr> \<and>
   noteTextArea (handleMobileResults (eventOf [finalSlot ''x'']) (withText (js ''abc'') 0 initialApp))
     = \<lparr>ta_value = js ''abc x '', selectionStart = 6\<rparr> \<and>
   noteTextArea (onresult_hybrid (eventOf [finalSlot ''hello'']) (withText (js ''abc'') 3 initialApp))
     = \<lparr>ta_value = js ''abchello '', selectionStart = 9\<rparr>"
  by (simp add: assembler_eval)

text \<open>
  A delta holding CR LF: \<open>currentNote.text\<close> keeps both code units, the text area reads
  the pair back as one LF, and the cursor offset, computed from the lengths before that,
  is capped at the end of the shorter text. With the text \<open>xy\<close>, the cursor after
  \<open>x\<close> and the delta \<open>a\<close> CR LF \<open>b\<close>, the note's text has 8 code units, the text
  area 7, and the cursor is at offset 7, after the \<open>y\<close>.
\<close>

lemma splice_reads_back_normalised:
  "map_option note_text (currentNote (insertTranscript (js ''a'' @ [0x0D, 0x0A] @ js ''b'')
       (withText (js ''xy'') 1 initialApp)))
     = Some (js ''x a'' @ [0x0D, 0x0A] @ js ''b y'') \<and>
   noteTextArea (insertTranscript (js ''a'' @ [0x0D, 0x0A] @ js ''b'')
       (withText (js ''xy'') 1 initialApp))
     = \<lparr>ta_value = js ''x a'' @ [0x0A] @ js ''b y'', selectionStart = 7\<rparr>"
  by (simp add: assembler_eval)

text \<open>
  C4, amended. For every non-empty delta inserted while a note is open, in either mode
  of app.js: the text is split at the effective cursor, which is the selection start, or
  the end of the text when the selection start is 0; one leading space is inserted exactly
  when the text before the cursor is non-empty and ends in neither a space nor a newline;
  the delta follows; one space is always appended before the text after the cursor,
  whatever that text starts with. This is the text \<open>currentNote.text\<close> takes. The text
  area reads it back with CR LF and CR as LF, and its cursor is the offset right after the
  trailing space, counted before that and capped at the end of the text. When the text
  area held no carriage return, only the delta is changed by this; when the delta holds
  none either, the text area holds the spliced text as it is and the cursor lands right
  after the trailing space. The mobile handler on an event with one final slot and the
  desktop handler on an event with a new suffix both perform exactly this insertion. The
  hybrid variant inserts the transcript and one space at the selection start, with no
  leading space, under the same rule for newlines.
\<close>

theorem transcript_splice:
  assumes v: "v = ta_value (noteTextArea s)"
    and cur: "cur = (if selectionStart (noteTextArea s) = 0 then length v
                     else selectionStart (noteTextArea s))"
    and spacer: "spacer = (if take cur v \<noteq> [] \<and> last (take cur v) \<noteq> 0x20 \<and>
                              last (take cur v) \<noteq> 0x0A then [0x20] else [])"
    and has_note: "currentNote s \<noteq> None" and t: "t \<noteq> []"
  shows "map_option note_text (currentNote (insertTranscript t s)) =
           Some (take cur v @ spacer @ t @ [0x20] @ drop cur v) \<and>
    noteTextArea (insertTranscript t s) =
      \<lparr>ta_value = normalizeNewlines (take cur v @ spacer @ t @ [0x20] @ drop cur v),
       selectionStart = min (length (take cur v @ spacer @ t @ [0x20]))
                            (length (normalizeNewlines (take cur v @ spacer @ t @ [0x20] @ drop cur v)))\<rparr> \<and>
    (0x0D \<notin> set v \<longrightarrow>
       ta_value (noteTextArea (insertTranscript t s)) =
         take cur v @ spacer @ normalizeNewlines t @ [0x20] @ drop cur v) \<and>
    (0x0D \<notin> set v \<and> 0x0D \<notin> set t \<longrightarrow>
       noteTextArea (insertTranscript t s) =
         \<lparr>ta_value = take cur v @ spacer @ t @ [0x20] @ drop cur v,
          selectionStart = length (take cur v @ spacer @ t @ [0x20])\<rparr>) \<and>
    (\<forall>(r::speech_result) i. isFinal r \<and> trim (transcript r) = t \<longrightarrow>
       handleMobileResults \<lparr>resultIndex = i, results = [r]\<rparr> s = insertTranscript t s) \<and>
    (\<forall>event. lastFinalizedLength s < length (finalTextOf event) \<and>
        trim (drop (lastFinalizedLength s) (finalTextOf event)) = t \<longrightarrow>
       noteTextArea (handleDesktopResults event s) = noteTextArea (insertTranscript t s) \<and>
       currentNote (handleDesktopResults event s) = currentNote (insertTranscript t s)) \<and>
    (\<forall>r::speech_result. isFinal r \<and> transcript r = t \<longrightarrow>
       noteTextArea (onresult_hybrid \<lparr>resultIndex = 0, results = [r]\<rparr> s) =
         \<lparr>ta_value = normalizeNewlines (take (selectionStart (noteTextArea s)) v @ t @ [0x20] @
                        drop (selectionStart (noteTextArea s)) v),
          selectionStart = min (length (take (selectionStart (noteTextArea s)) v @ t @ [0x20]))
                               (length (normalizeNewlines
                                  (take (selectionStart (noteTextArea s)) v @ t @ [0x20] @
                                   drop (selectionStart (noteTextArea s)) v)))\<rparr> \<and>
       (0x0D \<notin> set v \<and> 0x0D \<notin> set t \<longrightarrow>
          noteTextArea (onresult_hybrid \<lparr>resultIndex = 0, results = [r]\<rparr> s) =
            \<lparr>ta_value = take (selectionStart (noteTextArea s)) v @ t @ [0x20] @
                           drop (selectionStart (noteTextArea s)) v,
             selectionStart = length (take (selectionStart (noteTextArea s)) v @ t @ [0x20])\<rparr>))"
proof (intro conjI allI impI)
  show "map_option note_text (currentNote (insertTranscript t s)) =
           Some (take cur v @ spacer @ t @ [0x20] @ drop cur v)"
    using insertTranscript_textarea(2)[OF v cur spacer, of t] has_note by auto
next
  show "noteTextArea (insertTranscript t s) =
      \<lparr>ta_value = normalizeNewlines (take cur v @ spacer @ t @ [0x20] @ drop cur v),
       selectionStart = min (length (take cur v @ spacer @ t @ [0x20]))
                            (length (normalizeNewlines (take cur v @ spacer @ t @ [0x20] @ drop cur v)))\<rparr>"
    by (rule insertTranscript_textarea(1)[OF v cur spacer])
next
  assume "0x0D \<notin> set v"
  then show "ta_value (noteTextArea (insertTranscript t s)) =
         take cur v @ spacer @ normalizeNewlines t @ [0x20] @ drop cur v"
    by (rule insertTranscript_textarea_plain(1)[OF v cur spacer])
next
  assume "0x0D \<notin> set v \<and> 0x0D \<notin> set t"
  then show "noteTextArea (insertTranscript t s) =
         \<lparr>ta_value = take cur v @ spacer @ t @ [0x20] @ drop cur v,
          selectionStart = length (take cur v @ spacer @ t @ [0x20])\<rparr>"
    using insertTranscript_textarea_plain(2)[OF v cur spacer, of t] by blast
next
  fix r :: speech_result and i
  assume "isFinal r \<and> trim (transcript r) = t"
  then show "handleMobileResults \<lparr>resultIndex = i, results = [r]\<rparr> s = insertTranscript t s"
    using handleMobileResults_single[of r t s i] t has_note by blast
next
  fix event
  assume "lastFinalizedLength s < length (finalTextOf event) \<and>
        trim (drop (lastFinalizedLength s) (finalTextOf event)) = t"
  then show "noteTextArea (handleDesktopResults event s) = noteTextArea (insertTranscript t s)"
    using handleDesktopResults_insert(1)[of s event t] t has_note by blast
next
  fix event
  assume "lastFinalizedLength s < length (finalTextOf event) \<and>
        trim (drop (lastFinalizedLength s) (finalTextOf event)) = t"
  then show "currentNote (handleDesktopResults event s) = currentNote (insertTranscript t s)"
    using handleDesktopResults_insert(3)[of s event t] t has_note by blast
next
  fix r :: speech_result
  assume r: "isFinal r \<and> transcript r = t"
  then have "noteTextArea (onresult_hybrid \<lparr>resultIndex = 0, results = [r]\<rparr> s) =
         noteTextArea (insertTranscript_hybrid t s)"
    using onresult_hybrid_single[of r s] has_note by auto
  then show "noteTextArea (onresult_hybrid \<lparr>resultIndex = 0, results = [r]\<rparr> s) =
         \<lparr>ta_value = normalizeNewlines (take (selectionStart (noteTextArea s)) v @ t @ [0x20] @
                        drop (selectionStart (noteTextArea s)) v),
          selectionStart = min (length (take (selectionStart (noteTextArea s)) v @ t @ [0x20]))
                               (length (normalizeNewlines
                                  (take (selectionStart (noteTextArea s)) v @ t @ [0x20] @
                                   drop (selectionStart (noteTextArea s)) v)))\<rparr>"
    using insertTranscript_hybrid_textarea[OF v refl, of t] by simp
next
  fix r :: speech_result
  assume r: "isFinal r \<and> transcript r = t" and plain: "0x0D \<notin> set v \<and> 0x0D \<notin> set t"
  from r have "noteTextArea (onresult_hybrid \<lparr>resultIndex = 0, results = [r]\<rparr> s) =
         noteTextArea (insertTranscript_hybrid t s)"
    using onresult_hybrid_single[of r s] has_note by auto
  then show "noteTextArea (onresult_hybrid \<lparr>resultIndex = 0, results = [r]\<rparr> s) =
         \<lparr>ta_value = take (selectionStart (noteTextArea s)) v @ t @ [0x20] @
                        drop (selectionStart (noteTextArea s)) v,
          selectionStart = length (take (selectionStart (noteTextArea s)) v @ t @ [0x20])\<rparr>"
    using insertTranscript_hybrid_textarea_plain[OF v refl, of t] plain by simp
qed

subsection \<open>Claim C3: desktop mode inserts the new suffix only\<close>

text \<open>
  C3. The cumulative final text of an event is the concatenation, in slot order, of every
  final transcript followed by a space. When it is longer than \<open>lastFinalizedLength\<close>,
  the handler sets \<open>lastFinalizedLength\<close> to its length, and the delta is the trimmed
  substring from the old \<open>lastFinalizedLength\<close> to the end. A non-empty delta with a
  note open is inserted by the insertion block, so the note's new text is the old text
  of the text area with the delta, one trailing space and at most one leading space put
  in at one place, and the text area reads that text back with CR LF and CR as LF, which
  changes nothing when neither the old text nor the delta holds a carriage return. An
  empty delta, or no open note, leaves the text area and the note as they were.
\<close>

theorem desktop_inserts_new_suffix_only:
  assumes longer: "lastFinalizedLength s < length (finalTextOf event)"
    and delta: "delta = trim (drop (lastFinalizedLength s) (finalTextOf event))"
  shows "finalTextOf event =
           concat (map (\<lambda>r. transcript r @ [0x20]) (filter isFinal (results event))) \<and>
    lastFinalizedLength (handleDesktopResults event s) = length (finalTextOf event) \<and>
    (delta \<noteq> [] \<and> currentNote s \<noteq> None \<longrightarrow>
       noteTextArea (handleDesktopResults event s) = noteTextArea (insertTranscript delta s) \<and>
       currentNote (handleDesktopResults event s) = currentNote (insertTranscript delta s) \<and>
       (\<exists>before spacer after.
          ta_value (noteTextArea s) = before @ after \<and> (spacer = [] \<or> spacer = [0x20]) \<and>
          map_option note_text (currentNote (handleDesktopResults event s))
            = Some (before @ spacer @ delta @ [0x20] @ after) \<and>
          ta_value (noteTextArea (handleDesktopResults event s))
            = normalizeNewlines (before @ spacer @ delta @ [0x20] @ after) \<and>
          (0x0D \<notin> set (ta_value (noteTextArea s)) \<and> 0x0D \<notin> set delta \<longrightarrow>
             ta_value (noteTextArea (handleDesktopResults event s))
               = before @ spacer @ delta @ [0x20] @ after))) \<and>
    (delta = [] \<or> currentNote s = None \<longrightarrow>
       noteTextArea (handleDesktopResults event s) = noteTextArea s \<and>
       currentNote (handleDesktopResults event s) = currentNote s)"
proof (intro conjI impI)
  show "finalTextOf event =
           concat (map (\<lambda>r. transcript r @ [0x20]) (filter isFinal (results event)))"
    by (rule finalTextOf_concat)
next
  show "lastFinalizedLength (handleDesktopResults event s) = length (finalTextOf event)"
    using longer by (simp add: handleDesktopResults_unfold Let_def)
next
  assume ins: "delta \<noteq> [] \<and> currentNote s \<noteq> None"
  show same: "noteTextArea (handleDesktopResults event s) = noteTextArea (insertTranscript delta s)"
    using handleDesktopResults_insert(1)[OF longer delta[symmetric]] ins by blast
  show same_note: "currentNote (handleDesktopResults event s) = currentNote (insertTranscript delta s)"
    using handleDesktopResults_insert(3)[OF longer delta[symmetric]] ins by blast
  define v where "v = ta_value (noteTextArea s)"
  define cur where "cur = (if selectionStart (noteTextArea s) = 0 then length v
                           else selectionStart (noteTextArea s))"
  define spacer :: js_string where
    "spacer = (if take cur v \<noteq> [] \<and> last (take cur v) \<noteq> 0x20 \<and> last (take cur v) \<noteq> 0x0A
               then [0x20] else [])"
  have split: "ta_value (noteTextArea s) = take cur v @ drop cur v"
    by (simp add: v_def)
  have sp: "spacer = [] \<or> spacer = [0x20]"
    by (simp add: spacer_def)
  have note_text: "map_option note_text (currentNote (handleDesktopResults event s))
          = Some (take cur v @ spacer @ delta @ [0x20] @ drop cur v)"
    unfolding same_note
    using insertTranscript_textarea(2)[OF v_def cur_def spacer_def, of delta] ins by auto
  have area: "ta_value (noteTextArea (handleDesktopResults event s))
          = normalizeNewlines (take cur v @ spacer @ delta @ [0x20] @ drop cur v)"
    unfolding same
    using insertTranscript_textarea(1)[OF v_def cur_def spacer_def, of delta] by simp
  have plain: "0x0D \<notin> set (ta_value (noteTextArea s)) \<and> 0x0D \<notin> set delta \<longrightarrow>
             ta_value (noteTextArea (handleDesktopResults event s))
               = take cur v @ spacer @ delta @ [0x20] @ drop cur v"
  proof
    assume p: "0x0D \<notin> set (ta_value (noteTextArea s)) \<and> 0x0D \<notin> set delta"
    then have pv: "0x0D \<notin> set v" and pd: "0x0D \<notin> set delta" by (simp_all add: v_def)
    show "ta_value (noteTextArea (handleDesktopResults event s))
               = take cur v @ spacer @ delta @ [0x20] @ drop cur v"
      unfolding same
      using insertTranscript_textarea_plain(2)[OF v_def cur_def spacer_def pv pd] by simp
  qed
  show "\<exists>before spacer after.
          ta_value (noteTextArea s) = before @ after \<and> (spacer = [] \<or> spacer = [0x20]) \<and>
          map_option note_text (currentNote (handleDesktopResults event s))
            = Some (before @ spacer @ delta @ [0x20] @ after) \<and>
          ta_value (noteTextArea (handleDesktopResults event s))
            = normalizeNewlines (before @ spacer @ delta @ [0x20] @ after) \<and>
          (0x0D \<notin> set (ta_value (noteTextArea s)) \<and> 0x0D \<notin> set delta \<longrightarrow>
             ta_value (noteTextArea (handleDesktopResults event s))
               = before @ spacer @ delta @ [0x20] @ after)"
    by (rule exI[of _ "take cur v"], rule exI[of _ spacer], rule exI[of _ "drop cur v"])
       (intro conjI split sp note_text area plain)
next
  assume "delta = [] \<or> currentNote s = None"
  then show "noteTextArea (handleDesktopResults event s) = noteTextArea s"
    using handleDesktopResults_skip(1)[OF longer] unfolding delta by blast
next
  assume "delta = [] \<or> currentNote s = None"
  then show "currentNote (handleDesktopResults event s) = currentNote s"
    using handleDesktopResults_skip(3)[OF longer] unfolding delta by blast
qed

subsection \<open>Claim C10: a selection start of 0 counts as the end of the text\<close>

text \<open>
  C10. In app.js, when the selection start is 0 and the text is non-empty, the cursor
  position the insertion block uses is the length of the text: the mobile handler (on an
  event with one final slot) and the desktop handler (on an event with a new suffix) put
  the delta after the whole existing text, with a leading space unless the text ends in a
  space or a newline, and nothing after the trailing space. That is the note's new text;
  the text area reads it back with CR LF and CR as LF, with the cursor at its end. When
  the existing text holds no carriage return it stays in front as it is, and when the
  delta holds none either the text area holds the new text unchanged.
\<close>

theorem zero_cursor_appends_at_end:
  assumes zero: "selectionStart (noteTextArea s) = 0"
    and v: "v = ta_value (noteTextArea s)" and nonempty: "v \<noteq> []"
    and has_note: "currentNote s \<noteq> None" and t: "t \<noteq> []"
    and spacer: "spacer = (if last v \<noteq> 0x20 \<and> last v \<noteq> 0x0A then [0x20] else [])"
  shows "cursorPosOf (noteTextArea s) = length v \<and>
    map_option note_text (currentNote (insertTranscript t s)) = Some (v @ spacer @ t @ [0x20]) \<and>
    noteTextArea (insertTranscript t s) =
      \<lparr>ta_value = normalizeNewlines (v @ spacer @ t @ [0x20]),
       selectionStart = length (normalizeNewlines (v @ spacer @ t @ [0x20]))\<rparr> \<and>
    (0x0D \<notin> set v \<longrightarrow>
       ta_value (noteTextArea (insertTranscript t s)) = v @ spacer @ normalizeNewlines t @ [0x20]) \<and>
    (0x0D \<notin> set v \<and> 0x0D \<notin> set t \<longrightarrow>
       noteTextArea (insertTranscript t s) =
         \<lparr>ta_value = v @ spacer @ t @ [0x20], selectionStart = length (v @ spacer @ t @ [0x20])\<rparr>) \<and>
    (\<forall>(r::speech_result) i. isFinal r \<and> trim (transcript r) = t \<longrightarrow>
       noteTextArea (handleMobileResults \<lparr>resultIndex = i, results = [r]\<rparr> s) =
         \<lparr>ta_value = normalizeNewlines (v @ spacer @ t @ [0x20]),
          selectionStart = length (normalizeNewlines (v @ spacer @ t @ [0x20]))\<rparr> \<and>
       map_option note_text (currentNote (handleMobileResults \<lparr>resultIndex = i, results = [r]\<rparr> s))
         = Some (v @ spacer @ t @ [0x20])) \<and>
    (\<forall>event. lastFinalizedLength s < length (finalTextOf event) \<and>
        trim (drop (lastFinalizedLength s) (finalTextOf event)) = t \<longrightarrow>
       noteTextArea (handleDesktopResults event s) =
         \<lparr>ta_value = normalizeNewlines (v @ spacer @ t @ [0x20]),
          selectionStart = length (normalizeNewlines (v @ spacer @ t @ [0x20]))\<rparr> \<and>
       map_option note_text (currentNote (handleDesktopResults event s))
         = Some (v @ spacer @ t @ [0x20]))"
proof -
  have cur: "length v = (if selectionStart (noteTextArea s) = 0 then length v
                         else selectionStart (noteTextArea s))"
    using zero by simp
  have sp: "spacer = (if take (length v) v \<noteq> [] \<and> last (take (length v) v) \<noteq> 0x20 \<and>
                         last (take (length v) v) \<noteq> 0x0A then [0x20] else [])"
    using spacer nonempty by simp
  have shorter: "min (length (v @ spacer @ t @ [0x20])) (length (normalizeNewlines (v @ spacer @ t @ [0x20])))
                  = length (normalizeNewlines (v @ spacer @ t @ [0x20]))"
    using length_normalizeNewlines[of "v @ spacer @ t @ [0x20]"] by (simp only: min_def) simp
  have pos: "cursorPosOf (noteTextArea s) = length v"
    using zero v by (simp add: cursorPosOf_def)
  have new_note: "map_option note_text (currentNote (insertTranscript t s)) = Some (v @ spacer @ t @ [0x20])"
    using insertTranscript_textarea(2)[OF v cur sp, of t] has_note by auto
  have ins: "noteTextArea (insertTranscript t s) =
      \<lparr>ta_value = normalizeNewlines (v @ spacer @ t @ [0x20]),
       selectionStart = length (normalizeNewlines (v @ spacer @ t @ [0x20]))\<rparr>"
    using insertTranscript_textarea(1)[OF v cur sp, of t] shorter by simp
  have plain_v: "ta_value (noteTextArea (insertTranscript t s)) = v @ spacer @ normalizeNewlines t @ [0x20]"
    if "0x0D \<notin> set v"
    using insertTranscript_textarea_plain(1)[OF v cur sp that, of t] by simp
  have plain: "noteTextArea (insertTranscript t s) =
         \<lparr>ta_value = v @ spacer @ t @ [0x20], selectionStart = length (v @ spacer @ t @ [0x20])\<rparr>"
    if "0x0D \<notin> set v \<and> 0x0D \<notin> set t"
    using insertTranscript_textarea_plain(2)[OF v cur sp, of t] that by simp
  have mobile: "noteTextArea (handleMobileResults \<lparr>resultIndex = i, results = [r]\<rparr> s) =
         \<lparr>ta_value = normalizeNewlines (v @ spacer @ t @ [0x20]),
          selectionStart = length (normalizeNewlines (v @ spacer @ t @ [0x20]))\<rparr> \<and>
       map_option note_text (currentNote (handleMobileResults \<lparr>resultIndex = i, results = [r]\<rparr> s))
         = Some (v @ spacer @ t @ [0x20])"
    if "isFinal r \<and> trim (transcript r) = t" for r :: speech_result and i
    using handleMobileResults_single[of r t s i] that t has_note ins new_note by simp
  have desktop: "noteTextArea (handleDesktopResults event s) =
         \<lparr>ta_value = normalizeNewlines (v @ spacer @ t @ [0x20]),
          selectionStart = length (normalizeNewlines (v @ spacer @ t @ [0x20]))\<rparr> \<and>
       map_option note_text (currentNote (handleDesktopResults event s))
         = Some (v @ spacer @ t @ [0x20])"
    if "lastFinalizedLength s < length (finalTextOf event) \<and>
        trim (drop (lastFinalizedLength s) (finalTextOf event)) = t" for event
    using handleDesktopResults_insert(1,3)[of s event t] that t has_note ins new_note by simp
  show ?thesis
  proof (intro conjI allI impI)
    show "cursorPosOf (noteTextArea s) = length v" by (rule pos)
    show "map_option note_text (currentNote (insertTranscript t s)) = Some (v @ spacer @ t @ [0x20])"
      by (rule new_note)
    show "noteTextArea (insertTranscript t s) =
      \<lparr>ta_value = normalizeNewlines (v @ spacer @ t @ [0x20]),
       selectionStart = length (normalizeNewlines (v @ spacer @ t @ [0x20]))\<rparr>" by (rule ins)
    show "ta_value (noteTextArea (insertTranscript t s)) = v @ spacer @ normalizeNewlines t @ [0x20]"
      if "0x0D \<notin> set v" using that by (rule plain_v)
    show "noteTextArea (insertTranscript t s) =
         \<lparr>ta_value = v @ spacer @ t @ [0x20], selectionStart = length (v @ spacer @ t @ [0x20])\<rparr>"
      if "0x0D \<notin> set v \<and> 0x0D \<notin> set t" using that by (rule plain)
    show "noteTextArea (handleMobileResults \<lparr>resultIndex = i, results = [r]\<rparr> s) =
         \<lparr>ta_value = normalizeNewlines (v @ spacer @ t @ [0x20]),
          selectionStart = length (normalizeNewlines (v @ spacer @ t @ [0x20]))\<rparr>"
      if "isFinal r \<and> trim (transcript r) = t" for r :: speech_result and i
      using mobile[OF that] by (rule conjunct1)
    show "map_option note_text (currentNote (handleMobileResults \<lparr>resultIndex = i, results = [r]\<rparr> s))
         = Some (v @ spacer @ t @ [0x20])"
      if "isFinal r \<and> trim (transcript r) = t" for r :: speech_result and i
      using mobile[OF that] by (rule conjunct2)
    show "noteTextArea (handleDesktopResults event s) =
         \<lparr>ta_value = normalizeNewlines (v @ spacer @ t @ [0x20]),
          selectionStart = length (normalizeNewlines (v @ spacer @ t @ [0x20]))\<rparr>"
      if "lastFinalizedLength s < length (finalTextOf event) \<and>
        trim (drop (lastFinalizedLength s) (finalTextOf event)) = t" for event
      using desktop[OF that] by (rule conjunct1)
    show "map_option note_text (currentNote (handleDesktopResults event s))
         = Some (v @ spacer @ t @ [0x20])"
      if "lastFinalizedLength s < length (finalTextOf event) \<and>
        trim (drop (lastFinalizedLength s) (finalTextOf event)) = t" for event
      using desktop[OF that] by (rule conjunct2)
  qed
qed

text \<open>
  The amended C4 at the text \<open>a b\<close> with the cursor at offset 1 and the delta \<open>x\<close>,
  neither of which holds a carriage return.
\<close>

theorem transcript_splice_witness:
  "js ''a b'' = ta_value (noteTextArea (withText (js ''a b'') 1 initialApp)) \<and>
   currentNote (withText (js ''a b'') 1 initialApp) \<noteq> None \<and>
   0x0D \<notin> set (js ''a b'') \<and> 0x0D \<notin> set (js ''x'') \<and>
   map_option note_text (currentNote (insertTranscript (js ''x'') (withText (js ''a b'') 1 initialApp)))
     = Some (js ''a x  b'') \<and>
   noteTextArea (insertTranscript (js ''x'') (withText (js ''a b'') 1 initialApp))
     = \<lparr>ta_value = js ''a x  b'', selectionStart = 4\<rparr> \<and>
   handleMobileResults \<lparr>resultIndex = 0, results = [finalSlot ''x'']\<rparr> (withText (js ''a b'') 1 initialApp)
     = insertTranscript (js ''x'') (withText (js ''a b'') 1 initialApp) \<and>
   noteTextArea (handleDesktopResults (eventOf [finalSlot ''x'']) (withText (js ''a b'') 1 initialApp))
     = noteTextArea (insertTranscript (js ''x'') (withText (js ''a b'') 1 initialApp)) \<and>
   noteTextArea (onresult_hybrid \<lparr>resultIndex = 0, results = [finalSlot ''x'']\<rparr>
       (withText (js ''a b'') 1 initialApp))
     = \<lparr>ta_value = js ''ax  b'', selectionStart = 3\<rparr>"
proof -
  let ?s = "withText (js ''a b'') 1 initialApp"
  have v: "js ''a b'' = ta_value (noteTextArea ?s)"
    by (simp add: withText_def)
  have cur: "1 = (if selectionStart (noteTextArea ?s) = 0 then length (js ''a b'')
                  else selectionStart (noteTextArea ?s))"
    by (simp add: withText_def)
  have spacer: "[0x20] = (if take 1 (js ''a b'') \<noteq> [] \<and> last (take 1 (js ''a b'')) \<noteq> 0x20 \<and>
                              last (take 1 (js ''a b'')) \<noteq> 0x0A then [0x20] else [])"
    by (simp add: js_def)
  have has_note: "currentNote ?s \<noteq> None"
    by (simp add: withText_def initialApp_def)
  have t: "js ''x'' \<noteq> []" by (simp add: js_def)
  have plain: "0x0D \<notin> set (js ''a b'') \<and> 0x0D \<notin> set (js ''x'')"
    by (simp add: js_def)
  note T = transcript_splice[OF v cur spacer has_note t]
  have val: "take 1 (js ''a b'') @ [0x20] @ js ''x'' @ [0x20] @ drop 1 (js ''a b'') = js ''a x  b''"
    by (simp add: js_def)
  have "map_option note_text (currentNote (insertTranscript (js ''x'') ?s)) =
           Some (take 1 (js ''a b'') @ [0x20] @ js ''x'' @ [0x20] @ drop 1 (js ''a b''))"
    using T by (rule conjunct1)
  then have new_note: "map_option note_text (currentNote (insertTranscript (js ''x'') ?s))
      = Some (js ''a x  b'')"
    unfolding val .
  have "noteTextArea (insertTranscript (js ''x'') ?s) =
         \<lparr>ta_value = take 1 (js ''a b'') @ [0x20] @ js ''x'' @ [0x20] @ drop 1 (js ''a b''),
          selectionStart = length (take 1 (js ''a b'') @ [0x20] @ js ''x'' @ [0x20])\<rparr>"
    using T plain by blast
  then have ins: "noteTextArea (insertTranscript (js ''x'') ?s) = \<lparr>ta_value = js ''a x  b'', selectionStart = 4\<rparr>"
    unfolding val by (simp add: js_def)
  have slot: "isFinal (finalSlot ''x'') \<and> trim (transcript (finalSlot ''x'')) = js ''x''"
    by (simp add: finalSlot_def trim_def is_js_space_def js_def)
  have mobile: "handleMobileResults \<lparr>resultIndex = 0, results = [finalSlot ''x'']\<rparr> ?s
                  = insertTranscript (js ''x'') ?s"
    using T slot by blast
  have ev: "lastFinalizedLength ?s < length (finalTextOf (eventOf [finalSlot ''x''])) \<and>
            trim (drop (lastFinalizedLength ?s) (finalTextOf (eventOf [finalSlot ''x'']))) = js ''x''"
    by (simp add: assembler_eval)
  have desktop: "noteTextArea (handleDesktopResults (eventOf [finalSlot ''x'']) ?s)
                  = noteTextArea (insertTranscript (js ''x'') ?s)"
    using T ev by blast
  have slot2: "isFinal (finalSlot ''x'') \<and> transcript (finalSlot ''x'') = js ''x''"
    by (simp add: finalSlot_def)
  have "noteTextArea (onresult_hybrid \<lparr>resultIndex = 0, results = [finalSlot ''x'']\<rparr> ?s) =
         \<lparr>ta_value = take (selectionStart (noteTextArea ?s)) (js ''a b'') @ js ''x'' @ [0x20] @
                        drop (selectionStart (noteTextArea ?s)) (js ''a b''),
          selectionStart = length (take (selectionStart (noteTextArea ?s)) (js ''a b'') @ js ''x'' @ [0x20])\<rparr>"
    using T slot2 plain by blast
  then have hybrid: "noteTextArea (onresult_hybrid \<lparr>resultIndex = 0, results = [finalSlot ''x'']\<rparr> ?s)
      = \<lparr>ta_value = js ''ax  b'', selectionStart = 3\<rparr>"
    by (simp add: withText_def js_def)
  show ?thesis using v has_note plain new_note ins mobile desktop hybrid by blast
qed

text \<open>
  C3 at the example of the claim: the final text grows from \<open>hello \<close> to
  \<open>hello world \<close>. After the first event the committed length is 6; on the second
  event the delta is \<open>world\<close>, only it is inserted, the text becomes
  \<open>hello world \<close> and the committed length 12.
\<close>

theorem desktop_inserts_new_suffix_only_witness:
  "finalTextOf (eventOf [finalSlot ''hello'']) = js ''hello '' \<and>
   finalTextOf (eventOf [finalSlot ''hello'', finalSlot ''world'']) = js ''hello world '' \<and>
   lastFinalizedLength (handleDesktopResults (eventOf [finalSlot ''hello'']) initialApp) = 6 \<and>
   js ''world'' = trim (drop 6 (js ''hello world '')) \<and>
   lastFinalizedLength (handleDesktopResults (eventOf [finalSlot ''hello'', finalSlot ''world''])
      (handleDesktopResults (eventOf [finalSlot ''hello'']) initialApp)) = 12 \<and>
   ta_value (noteTextArea (handleDesktopResults (eventOf [finalSlot ''hello'']) initialApp))
     = js ''hello '' \<and>
   noteTextArea (handleDesktopResults (eventOf [finalSlot ''hello'', finalSlot ''world''])
      (handleDesktopResults (eventOf [finalSlot ''hello'']) initialApp))
     = noteTextArea (insertTranscript (js ''world'')
         (handleDesktopResults (eventOf [finalSlot ''hello'']) initialApp)) \<and>
   currentNote (handleDesktopResults (eventOf [finalSlot ''hello'', finalSlot ''world''])
      (handleDesktopResults (eventOf [finalSlot ''hello'']) initialApp))
     = currentNote (insertTranscript (js ''world'')
         (handleDesktopResults (eventOf [finalSlot ''hello'']) initialApp)) \<and>
   ta_value (noteTextArea (insertTranscript (js ''world'')
         (handleDesktopResults (eventOf [finalSlot ''hello'']) initialApp)))
     = js ''hello world '' \<and>
   map_option note_text (currentNote (insertTranscript (js ''world'')
         (handleDesktopResults (eventOf [finalSlot ''hello'']) initialApp)))
     = Some (js ''hello world '')"
proof -
  let ?e1 = "eventOf [finalSlot ''hello'']"
  let ?e2 = "eventOf [finalSlot ''hello'', finalSlot ''world'']"
  let ?s1 = "handleDesktopResults ?e1 initialApp"
  have f1: "finalTextOf ?e1 = js ''hello ''" and f2: "finalTextOf ?e2 = js ''hello world ''"
    by (simp_all add: finalTextOf_def eventOf_def finalSlot_def js_def)
  have l1: "lastFinalizedLength ?s1 = 6" and v1: "ta_value (noteTextArea ?s1) = js ''hello ''"
    and n1: "currentNote ?s1 \<noteq> None"
    by (simp_all add: assembler_eval)
  have longer: "lastFinalizedLength ?s1 < length (finalTextOf ?e2)"
    unfolding l1 f2 by (simp add: js_def)
  have d: "js ''world'' = trim (drop 6 (js ''hello world ''))"
    by (simp add: trim_def is_js_space_def js_def)
  have delta: "js ''world'' = trim (drop (lastFinalizedLength ?s1) (finalTextOf ?e2))"
    unfolding l1 f2 by (rule d)
  note T = desktop_inserts_new_suffix_only[OF longer delta]
  have l2: "lastFinalizedLength (handleDesktopResults ?e2 ?s1) = 12"
    using T f2 by (simp add: js_def)
  have ne: "js ''world'' \<noteq> []" by (simp add: js_def)
  have same: "noteTextArea (handleDesktopResults ?e2 ?s1)
                = noteTextArea (insertTranscript (js ''world'') ?s1)"
    using T ne n1 by blast
  have same_note: "currentNote (handleDesktopResults ?e2 ?s1)
                = currentNote (insertTranscript (js ''world'') ?s1)"
    using T ne n1 by blast
  have v2: "ta_value (noteTextArea (insertTranscript (js ''world'') ?s1)) = js ''hello world ''"
    by (simp add: assembler_eval)
  have n2: "map_option note_text (currentNote (insertTranscript (js ''world'') ?s1))
              = Some (js ''hello world '')"
    by (simp add: assembler_eval)
  show ?thesis using f1 f2 l1 d l2 v1 same same_note v2 n2 by blast
qed

text \<open>
  C10 at the text \<open>abc\<close> with the selection start at 0 and the delta \<open>x\<close>.
\<close>

theorem zero_cursor_appends_at_end_witness:
  "selectionStart (noteTextArea (withText (js ''abc'') 0 initialApp)) = 0 \<and>
   js ''abc'' = ta_value (noteTextArea (withText (js ''abc'') 0 initialApp)) \<and>
   cursorPosOf (noteTextArea (withText (js ''abc'') 0 initialApp)) = 3 \<and>
   noteTextArea (insertTranscript (js ''x'') (withText (js ''abc'') 0 initialApp))
     = \<lparr>ta_value = js ''abc x '', selectionStart = 6\<rparr> \<and>
   noteTextArea (handleMobileResults \<lparr>resultIndex = 0, results = [finalSlot ''x'']\<rparr>
      (withText (js ''abc'') 0 initialApp)) = \<lparr>ta_value = js ''abc x '', selectionStart = 6\<rparr> \<and>
   noteTextArea (handleDesktopResults (eventOf [finalSlot ''x''])
      (withText (js ''abc'') 0 initialApp)) = \<lparr>ta_value = js ''abc x '', selectionStart = 6\<rparr> \<and>
   map_option note_text (currentNote (handleDesktopResults (eventOf [finalSlot ''x''])
      (withText (js ''abc'') 0 initialApp))) = Some (js ''abc x '')"
proof -
  let ?s = "withText (js ''abc'') 0 initialApp"
  have zero: "selectionStart (noteTextArea ?s) = 0" and v: "js ''abc'' = ta_value (noteTextArea ?s)"
    by (simp_all add: withText_def)
  have nonempty: "js ''abc'' \<noteq> []" and t: "js ''x'' \<noteq> []" by (simp_all add: js_def)
  have has_note: "currentNote ?s \<noteq> None" by (simp add: withText_def initialApp_def)
  have spacer: "[0x20] = (if last (js ''abc'') \<noteq> 0x20 \<and> last (js ''abc'') \<noteq> 0x0A then [0x20] else [])"
    by (simp add: js_def)
  have plain: "0x0D \<notin> set (js ''abc'') \<and> 0x0D \<notin> set (js ''x'')"
    by (simp add: js_def)
  note T = zero_cursor_appends_at_end[OF zero v nonempty has_note t spacer]
  have val: "js ''abc'' @ [0x20] @ js ''x'' @ [0x20] = js ''abc x ''" by (simp add: js_def)
  have norm: "normalizeNewlines (js ''abc x '') = js ''abc x ''" by (simp add: js_def)
  have len: "length (js ''abc x '') = 6" by (simp add: js_def)
  have pos: "cursorPosOf (noteTextArea ?s) = 3" using T by (simp add: js_def)
  have "noteTextArea (insertTranscript (js ''x'') ?s) =
         \<lparr>ta_value = js ''abc'' @ [0x20] @ js ''x'' @ [0x20],
          selectionStart = length (js ''abc'' @ [0x20] @ js ''x'' @ [0x20])\<rparr>"
    using T plain by blast
  then have ins: "noteTextArea (insertTranscript (js ''x'') ?s)
          = \<lparr>ta_value = js ''abc x '', selectionStart = 6\<rparr>"
    unfolding val len .
  have slot: "isFinal (finalSlot ''x'') \<and> trim (transcript (finalSlot ''x'')) = js ''x''"
    by (simp add: finalSlot_def trim_def is_js_space_def js_def)
  have "noteTextArea (handleMobileResults \<lparr>resultIndex = 0, results = [finalSlot ''x'']\<rparr> ?s)
          = \<lparr>ta_value = normalizeNewlines (js ''abc'' @ [0x20] @ js ''x'' @ [0x20]),
             selectionStart = length (normalizeNewlines (js ''abc'' @ [0x20] @ js ''x'' @ [0x20]))\<rparr>"
    using T slot by blast
  then have mobile: "noteTextArea (handleMobileResults \<lparr>resultIndex = 0, results = [finalSlot ''x'']\<rparr> ?s)
          = \<lparr>ta_value = js ''abc x '', selectionStart = 6\<rparr>"
    unfolding val norm len .
  have ev: "lastFinalizedLength ?s < length (finalTextOf (eventOf [finalSlot ''x''])) \<and>
            trim (drop (lastFinalizedLength ?s) (finalTextOf (eventOf [finalSlot ''x'']))) = js ''x''"
    by (simp add: assembler_eval)
  have both: "noteTextArea (handleDesktopResults (eventOf [finalSlot ''x'']) ?s)
          = \<lparr>ta_value = normalizeNewlines (js ''abc'' @ [0x20] @ js ''x'' @ [0x20]),
             selectionStart = length (normalizeNewlines (js ''abc'' @ [0x20] @ js ''x'' @ [0x20]))\<rparr> \<and>
       map_option note_text (currentNote (handleDesktopResults (eventOf [finalSlot ''x'']) ?s))
          = Some (js ''abc'' @ [0x20] @ js ''x'' @ [0x20])"
    using T ev by blast
  then have desktop: "noteTextArea (handleDesktopResults (eventOf [finalSlot ''x'']) ?s)
          = \<lparr>ta_value = js ''abc x '', selectionStart = 6\<rparr>"
    and desktop_note: "map_option note_text (currentNote (handleDesktopResults (eventOf [finalSlot ''x'']) ?s))
          = Some (js ''abc x '')"
    unfolding val norm len by simp_all
  show ?thesis using zero v pos ins mobile desktop desktop_note by blast
qed



section \<open>Properties of recording sessions\<close>

lemma createNewNote_keeps [simp]:
  "online (createNewNote h s) = online s"
  "isRecording (createNewNote h s) = isRecording s"
  "isRecognitionStarting (createNewNote h s) = isRecognitionStarting s"
  "startCalls (createNewNote h s) = startCalls s"
  "recognition (createNewNote h s) = recognition s"
  "statusLog (createNewNote h s) = statusLog s"
  "timers (createNewNote h s) = timers s"
  "speechSupported (createNewNote h s) = speechSupported s"
  by (simp_all add: createNewNote_def)

lemma showStatus_keeps [simp]:
  "isRecording (showStatus m e s) = isRecording s"
  "startCalls (showStatus m e s) = startCalls s"
  "recognition (showStatus m e s) = recognition s"
  "timers (showStatus m e s) = timers s"
  "statusLog (showStatus m e s) = statusLog s @ [(m, e)]"
  by (simp_all add: showStatus_def)

lemma elapse_numeral:
  "elapse h (numeral k) s = elapse h (pred_numeral k) (tick h s)"
  by (simp add: numeral_eq_Suc)

text \<open>
  The definitions a concrete run of a recording session unfolds.
\<close>

lemmas session_eval =
  startRecording_def startRecording_hybrid_def stopRecording_def stopRecording_hybrid_def
  safeStartRecognition_def retryStart_def restart_hybrid_def onend_def onend_hybrid_def onstart_def
  initSpeechRecognition_def initSpeechRecognition_hybrid_def recognition_start_def
  recognition_stop_def createNewNote_def showStatus_def setTimeout_def clearTimeout_def
  tick_def run_timer_def elapse_numeral localeOf_def languageMap_def initialApp_def js_def
  trim_def is_js_space_def Let_def

subsection \<open>Claim C6: no recording starts while offline\<close>

text \<open>
  C6. While \<open>navigator.onLine\<close> is false, \<open>startRecording\<close> of either variant calls
  \<open>recognition.start()\<close> not once, leaves the engine object and the timers untouched
  and leaves \<open>isRecording\<close> as it was; started from the stopped state, the recording
  flag is still false afterwards and the message shown is the offline error. (The hybrid
  variant reports a missing speech constructor first, when the browser has none.)
\<close>

theorem offline_start_is_refused:
  assumes offline: "\<not> online s"
  shows "startCalls (startRecording s) = startCalls s \<and>
         recognition (startRecording s) = recognition s \<and>
         timers (startRecording s) = timers s \<and>
         isRecording (startRecording s) = isRecording s \<and>
         (\<not> isRecording s \<and> \<not> isRecognitionStarting s \<longrightarrow>
            \<not> isRecording (startRecording s) \<and>
            statusLog (startRecording s) = statusLog s @ [(MsgOffline, True)]) \<and>
         startCalls (startRecording_hybrid s) = startCalls s \<and>
         recognition (startRecording_hybrid s) = recognition s \<and>
         timers (startRecording_hybrid s) = timers s \<and>
         isRecording (startRecording_hybrid s) = isRecording s \<and>
         statusLog (startRecording_hybrid s) =
           statusLog s @ [(if speechSupported s then MsgOffline else MsgNotSupported, True)]"
proof -
  let ?a = "if currentNote s = None then createNewNote False s else s"
  let ?h = "if currentNote s = None then createNewNote True s else s"
  have a: "\<not> online ?a" "startCalls ?a = startCalls s" "recognition ?a = recognition s"
      "timers ?a = timers s" "isRecording ?a = isRecording s"
      "isRecognitionStarting ?a = isRecognitionStarting s" "statusLog ?a = statusLog s"
    using offline by simp_all
  have h: "\<not> online ?h" "startCalls ?h = startCalls s" "recognition ?h = recognition s"
      "timers ?h = timers s" "isRecording ?h = isRecording s"
      "speechSupported ?h = speechSupported s" "statusLog ?h = statusLog s"
    using offline by simp_all
  have app_js: "startRecording s =
      (if isRecording ?a \<or> isRecognitionStarting ?a then ?a else showStatus MsgOffline True ?a)"
    using a(1) by (simp add: startRecording_def Let_def)
  have hybrid: "startRecording_hybrid s =
      showStatus (if speechSupported s then MsgOffline else MsgNotSupported) True ?h"
    using h(1) h(6) by (simp add: startRecording_hybrid_def Let_def)
  show ?thesis
    unfolding app_js hybrid using a h by simp
qed

text \<open>
  C6 at the first-launch state with the connection down; with the connection up the
  same request does call \<open>recognition.start()\<close>.
\<close>

theorem offline_start_is_refused_witness:
  "\<not> online (initialApp\<lparr>online := False\<rparr>) \<and>
   \<not> isRecording (initialApp\<lparr>online := False\<rparr>) \<and>
   \<not> isRecognitionStarting (initialApp\<lparr>online := False\<rparr>) \<and>
   startCalls (startRecording (initialApp\<lparr>online := False\<rparr>)) = 0 \<and>
   \<not> isRecording (startRecording (initialApp\<lparr>online := False\<rparr>)) \<and>
   statusLog (startRecording (initialApp\<lparr>online := False\<rparr>)) = [(MsgOffline, True)] \<and>
   startCalls (startRecording_hybrid (initialApp\<lparr>online := False\<rparr>)) = 0 \<and>
   \<not> isRecording (startRecording_hybrid (initialApp\<lparr>online := False\<rparr>)) \<and>
   statusLog (startRecording_hybrid (initialApp\<lparr>online := False\<rparr>)) = [(MsgOffline, True)] \<and>
   startCalls (startRecording initialApp) = 1"
proof -
  let ?s = "initialApp\<lparr>online := False\<rparr>"
  have offline: "\<not> online ?s" by simp
  have st: "\<not> isRecording ?s" "\<not> isRecognitionStarting ?s" "startCalls ?s = 0"
      "statusLog ?s = []" "speechSupported ?s"
    by (simp_all add: initialApp_def)
  note T = offline_start_is_refused[OF offline]
  have online_case: "startCalls (startRecording initialApp) = 1"
    by (simp add: session_eval)
  show ?thesis using T offline st online_case by simp
qed

subsection \<open>Claim C2: a stop during the restart delay\<close>

lemma autoSave_session_fields [simp]:
  "isRecording (autoSave h s) = isRecording s"
  "startCalls (autoSave h s) = startCalls s"
  by (auto simp: autoSave_def Let_def showStatus_def split: option.splits prod.splits sum.splits)

lemma fire_when_stopped:
  assumes "\<not> isRecording s"
  shows "\<not> isRecording (fire False cb s) \<and> startCalls (fire False cb s) = startCalls s"
  using assms by (cases cb) (simp_all add: safeStartRecognition_def retryStart_def)

lemma run_timer_when_stopped:
  assumes "\<not> isRecording s"
  shows "\<not> isRecording (run_timer False t s) \<and> startCalls (run_timer False t s) = startCalls s"
proof (cases "t \<in> set (timers s)")
  case True
  then show ?thesis
    using fire_when_stopped[of "s\<lparr>timers := remove1 t (timers s)\<rparr>" "timer_callback t"] assms
    by (simp add: run_timer_def)
next
  case False
  then show ?thesis using assms by (simp add: run_timer_def)
qed

lemma fold_run_timer_when_stopped:
  "\<not> isRecording s \<Longrightarrow>
   \<not> isRecording (fold (run_timer False) ts s) \<and>
   startCalls (fold (run_timer False) ts s) = startCalls s"
proof (induction ts arbitrary: s)
  case Nil
  then show ?case by simp
next
  case (Cons t ts)
  have step: "\<not> isRecording (run_timer False t s)" "startCalls (run_timer False t s) = startCalls s"
    using run_timer_when_stopped[OF Cons.prems] by simp_all
  show ?case using Cons.IH[OF step(1)] step(2) by simp
qed

lemma tick_when_stopped:
  assumes "\<not> isRecording s"
  shows "\<not> isRecording (tick False s) \<and> startCalls (tick False s) = startCalls s"
  using fold_run_timer_when_stopped[of "s\<lparr>clock := Suc (clock s)\<rparr>"] assms
  by (simp add: tick_def Let_def)

lemma elapse_when_stopped:
  "\<not> isRecording s \<Longrightarrow>
   \<not> isRecording (elapse False d s) \<and> startCalls (elapse False d s) = startCalls s"
proof (induction d arbitrary: s)
  case 0
  then show ?case by simp
next
  case (Suc d)
  have step: "\<not> isRecording (tick False s)" "startCalls (tick False s) = startCalls s"
    using tick_when_stopped[OF Suc.prems] by simp_all
  show ?case using Suc.IH[OF step(1)] step(2) by simp
qed

lemma stopRecording_stops:
  "\<not> isRecording (stopRecording s)" "startCalls (stopRecording s) = startCalls s"
  by (simp_all add: stopRecording_def Let_def recognition_stop_def showStatus_def)

text \<open>
  In app.js the restart closure is \<open>safeStartRecognition\<close>, which returns at once
  when \<open>isRecording\<close> is false. So after \<open>stopRecording\<close>, however much time passes
  and whichever timers run, the recording flag stays false and \<open>recognition.start()\<close>
  is not called again.
\<close>

lemma safeStart_restart_suppressed:
  "\<not> isRecording (elapse False d (stopRecording s)) \<and>
   startCalls (elapse False d (stopRecording s)) = startCalls s"
  using elapse_when_stopped[OF stopRecording_stops(1), of d s] stopRecording_stops(2)[of s]
  by simp

text \<open>
  The scenario of C2 in app.js: the engine ends by itself, the restart is scheduled for
  100 ms later, the user stops after 50 ms; when the timer runs, nothing is started.
\<close>

lemma safeStart_restart_suppressed_example:
  "startCalls (elapse False 50 (stopRecording (elapse False 50 (onend (onstart (startRecording initialApp)))))) = 1 \<and>
   timers (stopRecording (elapse False 50 (onend (onstart (startRecording initialApp)))))
     = [\<lparr>timer_id = 1, due = 100, timer_callback = SafeStartCb\<rparr>] \<and>
   timers (elapse False 50 (stopRecording (elapse False 50 (onend (onstart (startRecording initialApp)))))) = []"
  by (simp add: session_eval)

text \<open>
  C2 fails in the hybrid variant. Its \<open>recognition.onend\<close> tests \<open>isRecording\<close> when it
  schedules the restart, and the closure it schedules calls \<open>recognition.start()\<close>
  without testing the flag again. Recording is started, the engine ends by itself, the
  user stops 50 ms later, and 50 ms after that the timer runs: \<open>start()\<close> is called a
  second time and the engine is active again, while \<open>isRecording\<close> is false.
\<close>

theorem hybrid_restart_after_stop:
  "isRecording (onend_hybrid (startRecording_hybrid initialApp)) \<and>
   startCalls (stopRecording_hybrid (elapse True 50 (onend_hybrid (startRecording_hybrid initialApp)))) = 1 \<and>
   \<not> isRecording (stopRecording_hybrid (elapse True 50 (onend_hybrid (startRecording_hybrid initialApp)))) \<and>
   startCalls (elapse True 50 (stopRecording_hybrid (elapse True 50
       (onend_hybrid (startRecording_hybrid initialApp))))) = 2 \<and>
   \<not> isRecording (elapse True 50 (stopRecording_hybrid (elapse True 50
       (onend_hybrid (startRecording_hybrid initialApp))))) \<and>
   map_option eng_active (recognition (elapse True 50 (stopRecording_hybrid (elapse True 50
       (onend_hybrid (startRecording_hybrid initialApp)))))) = Some True"
  by (simp add: session_eval)


section \<open>Properties of autosave\<close>

subsection \<open>Closures of a recording session leave autosave alone\<close>

lemma view_showStatus [simp]:
  "autosave_view (showStatus m e s) = autosave_view s"
  "nextTimerId (showStatus m e s) = nextTimerId s"
  "clock (showStatus m e s) = clock s"
  by (simp_all add: autosave_view_def pendingAutoSaves_def showStatus_def)

lemma view_recognition_stop [simp]:
  "autosave_view (recognition_stop s) = autosave_view s"
  "nextTimerId (recognition_stop s) = nextTimerId s"
  "clock (recognition_stop s) = clock s"
  by (simp_all add: autosave_view_def pendingAutoSaves_def recognition_stop_def)

lemma view_recognition_start [simp]:
  "autosave_view (snd (recognition_start s)) = autosave_view s"
  "nextTimerId (snd (recognition_start s)) = nextTimerId s"
  "clock (snd (recognition_start s)) = clock s"
  by (simp_all add: autosave_view_def pendingAutoSaves_def recognition_start_def Let_def
        split: option.splits)

lemma view_setTimeout [simp]:
  "cb \<noteq> AutoSaveCb \<Longrightarrow> autosave_view (snd (setTimeout cb d s)) = autosave_view s"
  "nextTimerId (snd (setTimeout cb d s)) = Suc (nextTimerId s)"
  "clock (snd (setTimeout cb d s)) = clock s"
  by (simp_all add: autosave_view_def pendingAutoSaves_def setTimeout_def)

lemma view_stopRecording [simp]:
  "autosave_view (stopRecording s) = autosave_view s"
  "nextTimerId (stopRecording s) = nextTimerId s"
  "clock (stopRecording s) = clock s"
proof -
  have "stopRecording s = s \<or>
        stopRecording s = showStatus MsgStopped False
          ((if recognition s \<noteq> None
            then recognition_stop (s\<lparr>isRecording := False, isRecognitionStarting := False\<rparr>)
            else s\<lparr>isRecording := False, isRecognitionStarting := False\<rparr>)
           \<lparr>lastFinalizedLength := 0\<rparr>)"
    by (simp add: stopRecording_def Let_def)
  then show "autosave_view (stopRecording s) = autosave_view s"
    "nextTimerId (stopRecording s) = nextTimerId s" "clock (stopRecording s) = clock s"
    by (auto simp: autosave_view_def pendingAutoSaves_def showStatus_def recognition_stop_def)
qed

lemma view_stopRecording_hybrid [simp]:
  "autosave_view (stopRecording_hybrid s) = autosave_view s"
  "nextTimerId (stopRecording_hybrid s) = nextTimerId s"
  "clock (stopRecording_hybrid s) = clock s"
  by (simp_all add: stopRecording_hybrid_def Let_def autosave_view_def pendingAutoSaves_def
        showStatus_def recognition_stop_def)

lemma view_safeStartRecognition [simp]:
  "autosave_view (safeStartRecognition s) = autosave_view s"
  "nextTimerId s \<le> nextTimerId (safeStartRecognition s)"
  "clock (safeStartRecognition s) = clock s"
proof -
  let ?s0 = "s\<lparr>isRecognitionStarting := True\<rparr>"
  let ?r = "recognition_start ?s0"
  let ?s2 = "(snd ?r)\<lparr>isRecognitionStarting := False\<rparr>"
  have base: "autosave_view ?s0 = autosave_view s" "nextTimerId ?s0 = nextTimerId s"
      "clock ?s0 = clock s"
    by (simp_all add: autosave_view_def pendingAutoSaves_def)
  have r: "autosave_view (snd ?r) = autosave_view s" "nextTimerId (snd ?r) = nextTimerId s"
      "clock (snd ?r) = clock s"
    using view_recognition_start[of ?s0] base by simp_all
  have s2: "autosave_view ?s2 = autosave_view s" "nextTimerId ?s2 = nextTimerId s"
      "clock ?s2 = clock s"
    using r by (simp_all add: autosave_view_def pendingAutoSaves_def)
  have cases: "safeStartRecognition s = s \<or> safeStartRecognition s = snd ?r \<or>
      safeStartRecognition s = snd (setTimeout RetryStartCb 1000 ?s2) \<or>
      safeStartRecognition s = showStatus MsgRecordingFailed True (stopRecording ?s2)"
    by (cases ?r) (auto simp: safeStartRecognition_def Let_def split: option.splits)
  show "autosave_view (safeStartRecognition s) = autosave_view s"
    using cases r s2 by (elim disjE) simp_all
  show "nextTimerId s \<le> nextTimerId (safeStartRecognition s)"
    using cases r s2 by (elim disjE) simp_all
  show "clock (safeStartRecognition s) = clock s"
    using cases r s2 by (elim disjE) simp_all
qed

lemma view_retryStart [simp]:
  "autosave_view (retryStart s) = autosave_view s"
  "nextTimerId s \<le> nextTimerId (retryStart s)"
  "clock (retryStart s) = clock s"
proof -
  let ?s1 = "s\<lparr>isRecognitionStarting := False\<rparr>"
  have base: "autosave_view ?s1 = autosave_view s" "nextTimerId ?s1 = nextTimerId s"
      "clock ?s1 = clock s"
    by (simp_all add: autosave_view_def pendingAutoSaves_def)
  have cases: "retryStart s = ?s1 \<or> retryStart s = safeStartRecognition ?s1"
    by (simp add: retryStart_def Let_def)
  show "autosave_view (retryStart s) = autosave_view s"
    using cases base view_safeStartRecognition(1)[of ?s1] by (elim disjE) simp_all
  show "nextTimerId s \<le> nextTimerId (retryStart s)"
    using cases base view_safeStartRecognition(2)[of ?s1] by (elim disjE) simp_all
  show "clock (retryStart s) = clock s"
    using cases base view_safeStartRecognition(3)[of ?s1] by (elim disjE) simp_all
qed

lemma view_restart_hybrid [simp]:
  "autosave_view (restart_hybrid s) = autosave_view s"
  "nextTimerId (restart_hybrid s) = nextTimerId s"
  "clock (restart_hybrid s) = clock s"
proof -
  let ?r = "recognition_start s"
  have cases: "restart_hybrid s = snd ?r \<or>
      restart_hybrid s = showStatus MsgRestartFailed True (stopRecording_hybrid (snd ?r))"
    by (cases ?r) (auto simp: restart_hybrid_def split: option.splits)
  show "autosave_view (restart_hybrid s) = autosave_view s"
    using cases by (elim disjE) simp_all
  show "nextTimerId (restart_hybrid s) = nextTimerId s"
    using cases by (elim disjE) simp_all
  show "clock (restart_hybrid s) = clock s"
    using cases by (elim disjE) simp_all
qed

lemma fire_other_view:
  assumes "cb \<noteq> AutoSaveCb"
  shows "autosave_view (fire h cb s) = autosave_view s"
    and "nextTimerId s \<le> nextTimerId (fire h cb s)"
    and "clock (fire h cb s) = clock s"
  using assms by (cases cb; simp)+

subsection \<open>Time passing while no autosave timer is due\<close>

lemma filter_remove1_other: "\<not> P t \<Longrightarrow> filter P (remove1 t xs) = filter P xs"
  by (induction xs) auto

lemma view_clock_update [simp]: "autosave_view (s\<lparr>clock := c\<rparr>) = autosave_view s"
  by (simp add: autosave_view_def pendingAutoSaves_def)

lemma run_timer_other_view:
  assumes "timer_callback t \<noteq> AutoSaveCb"
  shows "autosave_view (run_timer h t s) = autosave_view s"
    and "nextTimerId s \<le> nextTimerId (run_timer h t s)"
    and "clock (run_timer h t s) = clock s"
proof -
  let ?s' = "s\<lparr>timers := remove1 t (timers s)\<rparr>"
  have rem: "autosave_view ?s' = autosave_view s" "nextTimerId ?s' = nextTimerId s"
      "clock ?s' = clock s"
    using assms by (simp_all add: autosave_view_def pendingAutoSaves_def filter_remove1_other)
  have cases: "run_timer h t s = s \<or> run_timer h t s = fire h (timer_callback t) ?s'"
    by (simp add: run_timer_def)
  show "autosave_view (run_timer h t s) = autosave_view s"
    using cases fire_other_view(1)[OF assms, of h ?s'] rem by (elim disjE) simp_all
  show "nextTimerId s \<le> nextTimerId (run_timer h t s)"
    using cases fire_other_view(2)[OF assms, of ?s' h] rem by (elim disjE) simp_all
  show "clock (run_timer h t s) = clock s"
    using cases fire_other_view(3)[OF assms, of h ?s'] rem by (elim disjE) simp_all
qed

lemma fold_run_timer_other_view:
  "list_all (\<lambda>t. timer_callback t \<noteq> AutoSaveCb) ts \<Longrightarrow>
   autosave_view (fold (run_timer h) ts s) = autosave_view s \<and>
   nextTimerId s \<le> nextTimerId (fold (run_timer h) ts s) \<and>
   clock (fold (run_timer h) ts s) = clock s"
proof (induction ts arbitrary: s)
  case Nil
  then show ?case by simp
next
  case (Cons t ts)
  have t: "timer_callback t \<noteq> AutoSaveCb" and ts: "list_all (\<lambda>t. timer_callback t \<noteq> AutoSaveCb) ts"
    using Cons.prems by simp_all
  have a: "autosave_view (run_timer h t s) = autosave_view s"
      "nextTimerId s \<le> nextTimerId (run_timer h t s)" "clock (run_timer h t s) = clock s"
    by (rule run_timer_other_view[OF t])+
  have b: "autosave_view (fold (run_timer h) ts (run_timer h t s)) = autosave_view (run_timer h t s)"
      "nextTimerId (run_timer h t s) \<le> nextTimerId (fold (run_timer h) ts (run_timer h t s))"
      "clock (fold (run_timer h) ts (run_timer h t s)) = clock (run_timer h t s)"
    using Cons.IH[OF ts, of "run_timer h t s"] by simp_all
  show ?case using a b by simp
qed

lemma pendingAutoSaves_mem:
  "t \<in> set (pendingAutoSaves s) \<longleftrightarrow> t \<in> set (timers s) \<and> timer_callback t = AutoSaveCb"
  by (auto simp: pendingAutoSaves_def)

lemma view_pending: "autosave_view s' = autosave_view s \<Longrightarrow> pendingAutoSaves s' = pendingAutoSaves s"
  by (simp add: autosave_view_def)

lemma tick_quiet:
  assumes "list_all (\<lambda>t. Suc (clock s) < due t) (pendingAutoSaves s)"
  shows "autosave_view (tick h s) = autosave_view s \<and>
         nextTimerId s \<le> nextTimerId (tick h s) \<and> clock (tick h s) = Suc (clock s)"
proof -
  let ?s1 = "s\<lparr>clock := Suc (clock s)\<rparr>"
  let ?due = "filter (\<lambda>t. due t \<le> clock ?s1) (timers ?s1)"
  have "list_all (\<lambda>t. timer_callback t \<noteq> AutoSaveCb) ?due"
    using assms by (auto simp: list_all_iff pendingAutoSaves_def)
  then show ?thesis
    using fold_run_timer_other_view[of ?due h ?s1] by (simp add: tick_def Let_def)
qed

lemma elapse_quiet:
  "list_all (\<lambda>t. clock s + d < due t) (pendingAutoSaves s) \<Longrightarrow>
   autosave_view (elapse h d s) = autosave_view s \<and>
   nextTimerId s \<le> nextTimerId (elapse h d s) \<and> clock (elapse h d s) = clock s + d"
proof (induction d arbitrary: s)
  case 0
  then show ?case by simp
next
  case (Suc d)
  have now: "list_all (\<lambda>t. Suc (clock s) < due t) (pendingAutoSaves s)"
    using Suc.prems by (auto simp: list_all_iff)
  have step: "autosave_view (tick h s) = autosave_view s"
      "nextTimerId s \<le> nextTimerId (tick h s)" "clock (tick h s) = Suc (clock s)"
    using tick_quiet[OF now] by simp_all
  have later: "list_all (\<lambda>t. clock (tick h s) + d < due t) (pendingAutoSaves (tick h s))"
    using Suc.prems step(3) view_pending[OF step(1)] by simp
  show ?case using Suc.IH[OF later] step by simp
qed

lemma elapse_add: "elapse h (a + b) s = elapse h b (elapse h a s)"
  by (induction a arbitrary: s) simp_all

subsection \<open>A mutation re-arms the one timer\<close>

lemma armed_timers_ok: "armed T s \<Longrightarrow> timers_ok s"
  by (auto simp: armed_def timers_ok_def split: option.splits)

lemma scheduleAutoSave_arms:
  assumes "timers_ok s"
  shows "armed (clock s) (scheduleAutoSave s)"
proof -
  let ?s1 = "s\<lparr>noteStatus := StatusSaving\<rparr>"
  let ?s2 = "case saveTimeout ?s1 of Some h \<Rightarrow> if h \<noteq> 0 then clearTimeout h ?s1 else ?s1
             | None \<Rightarrow> ?s1"
  have cleared: "pendingAutoSaves ?s2 = []"
  proof (cases "saveTimeout s")
    case None
    then show ?thesis
      using assms by (cases "pendingAutoSaves s") (auto simp: timers_ok_def pendingAutoSaves_def)
  next
    case (Some h)
    have all: "\<forall>t \<in> set (pendingAutoSaves s). timer_id t = h \<and> h \<noteq> 0"
      using assms Some by (auto simp: timers_ok_def list_all_iff)
    show ?thesis
    proof (cases "h = 0")
      case True
      then have "pendingAutoSaves s = []" using all by (cases "pendingAutoSaves s") auto
      then show ?thesis using Some True by (simp add: pendingAutoSaves_def)
    next
      case False
      have "filter (\<lambda>t. timer_callback t = AutoSaveCb) (filter (\<lambda>t. timer_id t \<noteq> h) (timers s)) = []"
        using all by (auto simp: pendingAutoSaves_def filter_empty_conv)
      then show ?thesis using Some False by (simp add: pendingAutoSaves_def clearTimeout_def)
    qed
  qed
  have next_id: "nextTimerId ?s2 = nextTimerId s" and clk: "clock ?s2 = clock s"
    by (simp_all add: clearTimeout_def split: option.splits)
  have res: "scheduleAutoSave s =
      ?s2\<lparr>timers := timers ?s2 @ [\<lparr>timer_id = nextTimerId ?s2, due = clock ?s2 + 1000,
                                     timer_callback = AutoSaveCb\<rparr>],
           nextTimerId := Suc (nextTimerId ?s2), saveTimeout := Some (nextTimerId ?s2)\<rparr>"
    by (simp add: scheduleAutoSave_def setTimeout_def Let_def)
  have pos: "0 < nextTimerId s" using assms by (simp add: timers_ok_def)
  have pend: "pendingAutoSaves (scheduleAutoSave s) =
      [\<lparr>timer_id = nextTimerId s, due = clock s + 1000, timer_callback = AutoSaveCb\<rparr>]"
    unfolding res using cleared next_id clk by (simp add: pendingAutoSaves_def)
  have st: "saveTimeout (scheduleAutoSave s) = Some (nextTimerId s)"
    "nextTimerId (scheduleAutoSave s) = Suc (nextTimerId s)"
    unfolding res using next_id by simp_all
  show ?thesis using pend st pos by (simp add: armed_def)
qed

lemma scheduleAutoSave_more [simp]:
  "online (scheduleAutoSave s) = online s"
  by (simp add: scheduleAutoSave_def setTimeout_def clearTimeout_def Let_def split: option.splits)

lemma mutate_arms:
  assumes "timers_ok s"
  shows "armed (clock s) (mutate h m s) \<and> db (mutate h m s) = db s \<and>
         saveLog (mutate h m s) = saveLog s \<and> clock (mutate h m s) = clock s \<and>
         (\<forall>n. currentNote s = Some n \<longrightarrow> (\<exists>x. currentNote (mutate h m s) = Some (n\<lparr>note_text := x\<rparr>)))"
proof -
  have edit: "armed (clock s) (scheduleAutoSave s') \<and> db (scheduleAutoSave s') = db s \<and>
         saveLog (scheduleAutoSave s') = saveLog s \<and> clock (scheduleAutoSave s') = clock s \<and>
         (\<forall>n. currentNote s = Some n \<longrightarrow> (\<exists>x. currentNote (scheduleAutoSave s') = Some (n\<lparr>note_text := x\<rparr>)))"
    if same: "timers s' = timers s" "saveTimeout s' = saveTimeout s" "nextTimerId s' = nextTimerId s"
        "db s' = db s" "saveLog s' = saveLog s" "clock s' = clock s"
      and cur: "\<forall>n. currentNote s = Some n \<longrightarrow> (\<exists>x. currentNote s' = Some (n\<lparr>note_text := x\<rparr>))"
    for s'
  proof -
    have "timers_ok s'" using assms same by (simp add: timers_ok_def pendingAutoSaves_def)
    then show ?thesis using scheduleAutoSave_arms[of s'] same cur by simp
  qed
  have keep: "\<forall>n. currentNote s = Some n \<longrightarrow> (\<exists>x. Some n = Some (n\<lparr>note_text := x\<rparr>))"
  proof (intro allI impI)
    fix n show "\<exists>x. Some n = Some (n\<lparr>note_text := x\<rparr>)" by (rule exI[of _ "note_text n"]) simp
  qed
  show ?thesis
  proof (cases m)
    case (TitleInput v)
    show ?thesis unfolding TitleInput mutate.simps
      by (rule edit) (use keep in simp_all)
  next
    case (TextInput v c)
    show ?thesis unfolding TextInput mutate.simps
      by (rule edit) (use keep in simp_all)
  next
    case (Dictated t)
    show ?thesis
    proof (cases h)
      case True
      show ?thesis unfolding Dictated mutate.simps insertTranscript_hybrid_def Let_def using True
        by (simp only: if_True, intro edit) auto
    next
      case False
      show ?thesis unfolding Dictated mutate.simps insertTranscript_def Let_def using False
        by (simp only: if_False, intro edit) auto
    qed
  qed
qed

lemma view_fields:
  assumes "autosave_view s' = autosave_view s"
  shows "db s' = db s" "saveLog s' = saveLog s" "currentNote s' = currentNote s"
    "noteTitleInput s' = noteTitleInput s" "noteTextArea s' = noteTextArea s"
    "saveTimeout s' = saveTimeout s" "pendingAutoSaves s' = pendingAutoSaves s"
  using assms by (simp_all add: autosave_view_def)

lemma armed_view:
  assumes "armed T s" "autosave_view s' = autosave_view s" "nextTimerId s \<le> nextTimerId s'"
  shows "armed T s'"
  using assms(1,3) view_fields(6,7)[OF assms(2)]
  by (auto simp: armed_def split: option.splits)

lemma armed_quiet:
  assumes "armed T s" "clock s + d < T + 1000"
  shows "list_all (\<lambda>t. clock s + d < due t) (pendingAutoSaves s)"
  using assms by (auto simp: armed_def split: option.splits)

lemma burst_armed:
  "armed (clock s) s \<Longrightarrow> list_all (\<lambda>dm. fst dm < 1000) ms \<Longrightarrow>
   currentNote s = Some (n\<lparr>note_text := x\<rparr>) \<Longrightarrow>
   armed (clock (burst h ms s)) (burst h ms s) \<and> db (burst h ms s) = db s \<and>
   saveLog (burst h ms s) = saveLog s \<and>
   (\<exists>y. currentNote (burst h ms s) = Some (n\<lparr>note_text := y\<rparr>)) \<and>
   clock (burst h ms s) = clock s + sum_list (map fst ms)"
proof (induction ms arbitrary: s x)
  case Nil
  then show ?case by auto
next
  case (Cons dm ms)
  obtain d m where dm: "dm = (d, m)" by (cases dm)
  have d: "d < 1000" and rest: "list_all (\<lambda>dm. fst dm < 1000) ms"
    using Cons.prems(2) dm by simp_all
  let ?s1 = "elapse h d s"
  have quiet: "autosave_view ?s1 = autosave_view s" "nextTimerId s \<le> nextTimerId ?s1"
      "clock ?s1 = clock s + d"
    using elapse_quiet[OF armed_quiet[OF Cons.prems(1), of d], of h] d by simp_all
  have ok: "timers_ok ?s1"
    using armed_timers_ok[OF armed_view[OF Cons.prems(1) quiet(1,2)]] .
  let ?s2 = "mutate h m ?s1"
  have cur1: "currentNote ?s1 = Some (n\<lparr>note_text := x\<rparr>)"
    using view_fields(3)[OF quiet(1)] Cons.prems(3) by simp
  have m: "armed (clock ?s1) ?s2" "db ?s2 = db ?s1" "saveLog ?s2 = saveLog ?s1"
      "clock ?s2 = clock ?s1"
      "\<exists>y. currentNote ?s2 = Some (n\<lparr>note_text := x\<rparr>\<lparr>note_text := y\<rparr>)"
    using mutate_arms[OF ok, of h m] cur1 by simp_all
  then obtain y where y: "currentNote ?s2 = Some (n\<lparr>note_text := y\<rparr>)" by auto
  have armed2: "armed (clock ?s2) ?s2" using m(1,4) by simp
  have IH: "armed (clock (burst h ms ?s2)) (burst h ms ?s2) \<and> db (burst h ms ?s2) = db ?s2 \<and>
     saveLog (burst h ms ?s2) = saveLog ?s2 \<and>
     (\<exists>y. currentNote (burst h ms ?s2) = Some (n\<lparr>note_text := y\<rparr>)) \<and>
     clock (burst h ms ?s2) = clock ?s2 + sum_list (map fst ms)"
    by (rule Cons.IH[OF armed2 rest y])
  have b: "burst h (dm # ms) s = burst h ms ?s2" by (simp add: dm)
  have "db (burst h ms ?s2) = db s" "saveLog (burst h ms ?s2) = saveLog s"
      "clock (burst h ms ?s2) = clock s + sum_list (map fst (dm # ms))"
    using IH m(2,3,4) quiet(3) view_fields(1,2)[OF quiet(1)] by (simp_all add: dm)
  then show ?case unfolding b using IH by blast
qed

subsection \<open>The timer fires\<close>

lemma filter_remove1_same: "P t \<Longrightarrow> filter P (remove1 t xs) = remove1 t (filter P xs)"
  by (induction xs) auto

lemma autoSave_writes:
  assumes "currentNote s = Some n" "db s = Some st" "wf_store st"
  shows "saveLog (autoSave h s) = saveLog s @ [noteToSave s n] \<and>
         db (autoSave h s) = snd (save_variant h (noteToSave s n) (db s)) \<and>
         (\<exists>st'. db (autoSave h s) = Some st' \<and> wf_store st') \<and>
         (\<exists>n'. currentNote (autoSave h s) = Some n') \<and>
         noteTitleInput (autoSave h s) = noteTitleInput s \<and>
         noteTextArea (autoSave h s) = noteTextArea s \<and>
         saveTimeout (autoSave h s) = saveTimeout s \<and>
         timers (autoSave h s) = timers s \<and> nextTimerId (autoSave h s) = nextTimerId s \<and>
         clock (autoSave h s) = clock s"
proof -
  obtain k st' where w: "save_variant h (noteToSave s n) (Some st) = (Inr k, Some st')" "wf_store st'"
    using writeNote_wf[OF assms(3)] unfolding save_variant_writeNote by blast
  show ?thesis
    using assms(1,2) w
    by (simp add: autoSave_def Let_def noteToSave_def[symmetric])
qed

lemma noteToSave_cong:
  "noteTitleInput s' = noteTitleInput s \<Longrightarrow> noteTextArea s' = noteTextArea s \<Longrightarrow>
   clock s' = clock s \<Longrightarrow> noteToSave s' n = noteToSave s n"
  by (simp add: noteToSave_def)

lemma tick_fires_autoSave:
  assumes armed: "armed T s" and now: "Suc (clock s) = T + 1000"
    and cur: "currentNote s = Some n" and store: "db s = Some st" "wf_store st"
  shows "saveLog (tick h s) = saveLog s @ [noteToSave (s\<lparr>clock := T + 1000\<rparr>) n] \<and>
         db (tick h s) = snd (save_variant h (noteToSave (s\<lparr>clock := T + 1000\<rparr>) n) (db s)) \<and>
         (\<exists>st'. db (tick h s) = Some st' \<and> wf_store st') \<and>
         pendingAutoSaves (tick h s) = [] \<and>
         noteTitleInput (tick h s) = noteTitleInput s \<and>
         noteTextArea (tick h s) = noteTextArea s \<and>
         clock (tick h s) = T + 1000"
proof -
  obtain hd where hd: "saveTimeout s = Some hd"
    and pend: "pendingAutoSaves s = [\<lparr>timer_id = hd, due = T + 1000, timer_callback = AutoSaveCb\<rparr>]"
    using armed by (auto simp: armed_def split: option.splits)
  let ?t = "\<lparr>timer_id = hd, due = T + 1000, timer_callback = AutoSaveCb\<rparr>"
  let ?P = "\<lambda>t. timer_callback t = AutoSaveCb"
  let ?D = "\<lambda>t. due t \<le> T + 1000"
  let ?s1 = "s\<lparr>clock := T + 1000\<rparr>"
  have s1: "s\<lparr>clock := Suc (clock s)\<rparr> = ?s1" by (simp only: now)
  obtain pre post where split: "timers s = pre @ ?t # post"
    and pre: "\<forall>u \<in> set pre. \<not> ?P u" and post: "filter ?P post = []"
    using pend unfolding pendingAutoSaves_def filter_eq_Cons_iff by auto
  have post': "\<forall>u \<in> set post. \<not> ?P u" using post by (simp add: filter_empty_conv)
  have due: "filter (\<lambda>t. due t \<le> clock ?s1) (timers ?s1) = filter ?D pre @ ?t # filter ?D post"
    using split by simp
  have tick0: "tick h s = fold (run_timer h) (filter (\<lambda>t. due t \<le> clock ?s1) (timers ?s1)) ?s1"
    by (simp only: tick_def Let_def s1)
  have tick: "tick h s = fold (run_timer h) (filter ?D post)
                 (run_timer h ?t (fold (run_timer h) (filter ?D pre) ?s1))"
    unfolding tick0 due by simp
  let ?sa = "fold (run_timer h) (filter ?D pre) ?s1"
  have a: "autosave_view ?sa = autosave_view s" "clock ?sa = T + 1000"
    using fold_run_timer_other_view[of "filter ?D pre" h ?s1] pre
    by (simp_all add: list_all_iff)
  have mem: "?t \<in> set (timers ?sa)"
    using view_fields(7)[OF a(1)] pend pendingAutoSaves_mem[of ?t ?sa] by simp
  let ?sb = "?sa\<lparr>timers := remove1 ?t (timers ?sa)\<rparr>"
  have run: "run_timer h ?t ?sa = autoSave h ?sb"
    using mem by (simp add: run_timer_def)
  have b: "currentNote ?sb = Some n" "db ?sb = Some st" "noteTitleInput ?sb = noteTitleInput s"
      "noteTextArea ?sb = noteTextArea s" "clock ?sb = T + 1000" "saveLog ?sb = saveLog s"
    using view_fields[OF a(1)] a(2) cur store(1) by simp_all
  have b_pend: "pendingAutoSaves ?sb = []"
    using view_fields(7)[OF a(1)] pend
    by (simp add: pendingAutoSaves_def filter_remove1_same)
  have nts: "noteToSave ?sb n = noteToSave (s\<lparr>clock := T + 1000\<rparr>) n"
    by (rule noteToSave_cong) (use b in simp_all)
  let ?sc = "autoSave h ?sb"
  note W = autoSave_writes[OF b(1,2) store(2), of h]
  have c3: "\<exists>st'. db ?sc = Some st' \<and> wf_store st'"
    using W by blast
  have c: "saveLog ?sc = saveLog s @ [noteToSave (s\<lparr>clock := T + 1000\<rparr>) n]"
      "db ?sc = snd (save_variant h (noteToSave (s\<lparr>clock := T + 1000\<rparr>) n) (db s))"
      "noteTitleInput ?sc = noteTitleInput s" "noteTextArea ?sc = noteTextArea s"
      "timers ?sc = timers ?sb" "clock ?sc = T + 1000"
    using W b nts store(1) by simp_all
  have c_pend: "pendingAutoSaves ?sc = []"
    using c(5) b_pend by (simp add: pendingAutoSaves_def)
  have d: "autosave_view (tick h s) = autosave_view ?sc" "clock (tick h s) = clock ?sc"
    unfolding tick run
    using fold_run_timer_other_view[of "filter ?D post" h ?sc] post'
    by (simp_all add: list_all_iff)
  show ?thesis
    using view_fields[OF d(1)] d(2) c(1,2,3,4,6) c3 c_pend by simp
qed

subsection \<open>Claim C5: one write per burst\<close>

lemma noteToSave_text: "noteToSave s (n\<lparr>note_text := y\<rparr>) = noteToSave s n"
  by (simp add: noteToSave_def)

lemma burst_append: "burst h (xs @ ys) s = burst h ys (burst h xs s)"
  by (induction xs arbitrary: s) auto

lemma burst_last_mutation:
  "\<exists>s'. burst h ms (mutate h m0 s0) = mutate h (lastMutation m0 ms) s'"
proof (cases ms rule: rev_cases)
  case Nil
  then show ?thesis by (auto simp: lastMutation_def)
next
  case (snoc ms' dm)
  obtain d m where dm: "dm = (d, m)" by (cases dm)
  have "burst h ms (mutate h m0 s0) = mutate h m (elapse h d (burst h ms' (mutate h m0 s0)))"
    unfolding snoc dm burst_append by simp
  moreover have "lastMutation m0 ms = m" by (simp add: lastMutation_def snoc dm)
  ultimately show ?thesis by auto
qed

lemma mutate_editor:
  "noteTextArea (mutate h (TextInput v c) s) = \<lparr>ta_value = v, selectionStart = c\<rparr>"
  "noteTitleInput (mutate h (TitleInput v) s) = v"
  by simp_all

lemma at_least_1000: "1000 \<le> e \<Longrightarrow> \<exists>e'. e = 999 + Suc e'"
  by (rule exI[of _ "e - 1000"]) simp

text \<open>
  C5. Start from a state with the database open and well formed, a note open and the
  pending \<open>autoSave\<close> timers sound. A first mutation is followed by any number of further
  mutations, each less than 1000 ms after the one before, while time passes in between
  and other timers run. Then no save happens during the burst nor in the first 999 ms
  after its last mutation; at 1000 ms after the last mutation exactly one save happens
  and succeeds, and no other follows however long one waits, since no \<open>autoSave\<close> timer
  is left. The note saved carries the title field (or \<open>Untitled Note\<close> when that is
  empty) and the text area's value as the last mutation left them, and the time of the
  save as its timestamp.
\<close>

theorem debounce_single_write:
  assumes store: "db s0 = Some st" "wf_store st"
    and cur: "currentNote s0 = Some n0"
    and ok: "timers_ok s0"
    and quick: "list_all (\<lambda>dm. fst dm < 1000) ms"
    and s1: "s1 = burst hybrid ms (mutate hybrid m0 s0)"
    and written: "written = noteToSave (s1\<lparr>clock := clock s1 + 1000\<rparr>) n0"
  shows "clock s1 = clock s0 + sum_list (map fst ms) \<and>
    (\<forall>e. e < 1000 \<longrightarrow> saveLog (elapse hybrid e s1) = saveLog s0 \<and> db (elapse hybrid e s1) = db s0) \<and>
    (\<forall>e. 1000 \<le> e \<longrightarrow>
       saveLog (elapse hybrid e s1) = saveLog s0 @ [written] \<and>
       db (elapse hybrid e s1) = snd (save_variant hybrid written (db s0)) \<and>
       pendingAutoSaves (elapse hybrid e s1) = []) \<and>
    (\<exists>k st'. save_variant hybrid written (db s0) = (Inr k, Some st')) \<and>
    (\<exists>s'. s1 = mutate hybrid (lastMutation m0 ms) s') \<and>
    title written = (if noteTitleInput s1 \<noteq> [] then noteTitleInput s1 else untitledNote) \<and>
    note_text written = ta_value (noteTextArea s1) \<and>
    timestamp written = clock s1 + 1000 \<and>
    (\<forall>v c. lastMutation m0 ms = TextInput v c \<longrightarrow> note_text written = v) \<and>
    (\<forall>v. lastMutation m0 ms = TitleInput v \<and> v \<noteq> [] \<longrightarrow> title written = v)"
proof -
  let ?sA = "mutate hybrid m0 s0"
  have A: "armed (clock s0) ?sA" "db ?sA = db s0" "saveLog ?sA = saveLog s0" "clock ?sA = clock s0"
    using mutate_arms[OF ok, of hybrid m0] by simp_all
  obtain x where x: "currentNote ?sA = Some (n0\<lparr>note_text := x\<rparr>)"
    using mutate_arms[OF ok, of hybrid m0] cur by auto
  have armedA: "armed (clock ?sA) ?sA" using A(1,4) by simp
  note B = burst_armed[OF armedA quick x, of hybrid]
  have armed1: "armed (clock s1) s1"
    using B unfolding s1 by blast
  have db1: "db s1 = db s0" and log1: "saveLog s1 = saveLog s0"
    and clock1: "clock s1 = clock s0 + sum_list (map fst ms)"
    using B A(2,3,4) unfolding s1 by simp_all
  obtain y where y: "currentNote s1 = Some (n0\<lparr>note_text := y\<rparr>)"
    using B unfolding s1 by auto
  have before: "saveLog (elapse hybrid e s1) = saveLog s0 \<and> db (elapse hybrid e s1) = db s0"
    if "e < 1000" for e
  proof -
    have v: "autosave_view (elapse hybrid e s1) = autosave_view s1"
      using elapse_quiet[OF armed_quiet[OF armed1, of e], of hybrid] that by simp
    show ?thesis using view_fields(1,2)[OF v] db1 log1 by simp
  qed
  let ?s2 = "elapse hybrid 999 s1"
  have q2: "autosave_view ?s2 = autosave_view s1" "nextTimerId s1 \<le> nextTimerId ?s2"
      "clock ?s2 = clock s1 + 999"
    using elapse_quiet[OF armed_quiet[OF armed1, of 999], of hybrid] by simp_all
  have armed2: "armed (clock s1) ?s2" by (rule armed_view[OF armed1 q2(1,2)])
  have now2: "Suc (clock ?s2) = clock s1 + 1000" using q2(3) by simp
  have cur2: "currentNote ?s2 = Some (n0\<lparr>note_text := y\<rparr>)"
    using view_fields(3)[OF q2(1)] y by simp
  have store2: "db ?s2 = Some st" using view_fields(1)[OF q2(1)] db1 store(1) by simp
  let ?s3 = "tick hybrid ?s2"
  note F = tick_fires_autoSave[OF armed2 now2 cur2 store2 store(2), of hybrid]
  have w: "noteToSave (?s2\<lparr>clock := clock s1 + 1000\<rparr>) (n0\<lparr>note_text := y\<rparr>) = written"
    unfolding written noteToSave_text
    by (rule noteToSave_cong) (use view_fields(4,5)[OF q2(1)] in simp_all)
  have fired: "saveLog ?s3 = saveLog s0 @ [written]"
      "db ?s3 = snd (save_variant hybrid written (db s0))" "pendingAutoSaves ?s3 = []"
    using F w view_fields(1,2)[OF q2(1)] db1 log1 by simp_all
  have after: "saveLog (elapse hybrid e s1) = saveLog s0 @ [written] \<and>
       db (elapse hybrid e s1) = snd (save_variant hybrid written (db s0)) \<and>
       pendingAutoSaves (elapse hybrid e s1) = []"
    if le: "1000 \<le> e" for e
  proof -
    obtain e' where e: "e = 999 + Suc e'"
      using at_least_1000[OF le] by blast
    have el: "elapse hybrid e s1 = elapse hybrid e' ?s3"
      unfolding e elapse_add by simp
    have v: "autosave_view (elapse hybrid e' ?s3) = autosave_view ?s3"
      using elapse_quiet[of ?s3 e' hybrid] fired(3) by simp
    show ?thesis unfolding el using view_fields(1,2,7)[OF v] fired by simp
  qed
  have succeeds: "\<exists>k st'. save_variant hybrid written (db s0) = (Inr k, Some st')"
    using writeNote_wf[OF store(2)] unfolding save_variant_writeNote store(1) by blast
  have last: "\<exists>s'. s1 = mutate hybrid (lastMutation m0 ms) s'"
    unfolding s1 by (rule burst_last_mutation)
  have fields: "title written = (if noteTitleInput s1 \<noteq> [] then noteTitleInput s1 else untitledNote)"
      "note_text written = ta_value (noteTextArea s1)" "timestamp written = clock s1 + 1000"
    unfolding written by (simp_all add: noteToSave_def)
  have text_last: "note_text written = v" if "lastMutation m0 ms = TextInput v c" for v c
    using last that fields(2) mutate_editor(1) by auto
  have title_last: "title written = v" if "lastMutation m0 ms = TitleInput v \<and> v \<noteq> []" for v
    using last that fields(1) mutate_editor(2) by auto
  have before_all: "\<forall>e. e < 1000 \<longrightarrow>
      saveLog (elapse hybrid e s1) = saveLog s0 \<and> db (elapse hybrid e s1) = db s0"
    using before by (intro allI impI)
  have after_all: "\<forall>e. 1000 \<le> e \<longrightarrow>
       saveLog (elapse hybrid e s1) = saveLog s0 @ [written] \<and>
       db (elapse hybrid e s1) = snd (save_variant hybrid written (db s0)) \<and>
       pendingAutoSaves (elapse hybrid e s1) = []"
    using after by (intro allI impI)
  have text_all: "\<forall>v c. lastMutation m0 ms = TextInput v c \<longrightarrow> note_text written = v"
    using text_last by (intro allI impI)
  have title_all: "\<forall>v. lastMutation m0 ms = TitleInput v \<and> v \<noteq> [] \<longrightarrow> title written = v"
    using title_last by (intro allI impI)
  show ?thesis
    by (intro conjI) (rule clock1 before_all after_all succeeds last fields text_all title_all)+
qed

lemma tick_idle:
  assumes "list_all (\<lambda>t. Suc (clock s) < due t) (timers s)"
  shows "tick h s = s\<lparr>clock := Suc (clock s)\<rparr>"
proof -
  have "filter (\<lambda>t. due t \<le> Suc (clock s)) (timers s) = []"
    using assms by (auto simp: filter_empty_conv list_all_iff)
  then show ?thesis by (simp add: tick_def Let_def)
qed

lemma elapse_idle:
  "list_all (\<lambda>t. clock s + d < due t) (timers s) \<Longrightarrow> elapse h d s = s\<lparr>clock := clock s + d\<rparr>"
proof (induction d arbitrary: s)
  case 0
  then show ?case by simp
next
  case (Suc d)
  have now: "list_all (\<lambda>t. Suc (clock s) < due t) (timers s)"
    using Suc.prems by (auto simp: list_all_iff)
  have later: "list_all (\<lambda>t. clock (s\<lparr>clock := Suc (clock s)\<rparr>) + d < due t)
                 (timers (s\<lparr>clock := Suc (clock s)\<rparr>))"
    using Suc.prems by simp
  show ?case
    unfolding elapse.simps tick_idle[OF now] Suc.IH[OF later] by simp
qed

text \<open>
  The definitions a concrete burst unfolds.
\<close>

lemmas autosave_eval =
  firstEdit_def laterEdits_def scheduleAutoSave_def setTimeout_def clearTimeout_def
  insertTranscript_def insertTranscript_hybrid_def cursorPosOf_def needsSpace_def endsWith_def
  elapse_idle initialApp_def js_def Let_def

text \<open>
  The editor and the timers after the example burst.
\<close>

lemma burst_example:
  "noteTitleInput (burst False laterEdits (mutate False firstEdit initialApp)) = js ''T'' \<and>
   ta_value (noteTextArea (burst False laterEdits (mutate False firstEdit initialApp))) = js ''hey you '' \<and>
   clock (burst False laterEdits (mutate False firstEdit initialApp)) = 1599 \<and>
   timers (burst False laterEdits (mutate False firstEdit initialApp))
     = [\<lparr>timer_id = 5, due = 2599, timer_callback = AutoSaveCb\<rparr>]"
  by (simp add: autosave_eval)

text \<open>
  C5 at a burst of five mutations on the first-launch state, 200, 300, 999 and 100 ms
  apart: nothing is saved up to 999 ms after the last one, and from 1000 ms on the log
  holds the one note with the last title and text.
\<close>

theorem debounce_single_write_witness:
  "db initialApp = Some emptyStore \<and> wf_store emptyStore \<and>
   currentNote initialApp = Some blankNote \<and> timers_ok initialApp \<and>
   list_all (\<lambda>dm. fst dm < 1000) laterEdits \<and>
   clock (burst False laterEdits (mutate False firstEdit initialApp)) = 1599 \<and>
   saveLog (elapse False 999 (burst False laterEdits (mutate False firstEdit initialApp))) = [] \<and>
   saveLog (elapse False 1000 (burst False laterEdits (mutate False firstEdit initialApp)))
     = [\<lparr>note_id = None, title = js ''T'', note_text = js ''hey you '', summary = Undefined,
         language = js ''en'', timestamp = 2599, tags = []\<rparr>] \<and>
   saveLog (elapse False 5000 (burst False laterEdits (mutate False firstEdit initialApp)))
     = [\<lparr>note_id = None, title = js ''T'', note_text = js ''hey you '', summary = Undefined,
         language = js ''en'', timestamp = 2599, tags = []\<rparr>] \<and>
   db (elapse False 1000 (burst False laterEdits (mutate False firstEdit initialApp)))
     = snd (saveNote \<lparr>note_id = None, title = js ''T'', note_text = js ''hey you '',
                       summary = Undefined, language = js ''en'', timestamp = 2599, tags = []\<rparr>
              (Some emptyStore))"
proof -
  let ?s1 = "burst False laterEdits (mutate False firstEdit initialApp)"
  let ?w = "\<lparr>note_id = None, title = js ''T'', note_text = js ''hey you '', summary = Undefined,
             language = js ''en'', timestamp = 2599, tags = []\<rparr>"
  have h1: "db initialApp = Some emptyStore" and h3: "currentNote initialApp = Some blankNote"
    by (simp_all add: initialApp_def)
  have h4: "timers_ok initialApp"
    by (simp add: timers_ok_def pendingAutoSaves_def initialApp_def)
  have h5: "list_all (\<lambda>dm. fst dm < 1000) laterEdits"
    by (simp add: laterEdits_def)
  note T = debounce_single_write[OF h1 wf_emptyStore h3 h4 h5 refl refl, of False firstEdit]
  have w: "noteToSave (?s1\<lparr>clock := clock ?s1 + 1000\<rparr>) blankNote = ?w"
    using burst_example by (simp add: noteToSave_def blankNote_def js_def)
  have c: "clock ?s1 = 1599" using burst_example by simp
  have l999: "saveLog (elapse False 999 ?s1) = []"
  proof -
    have "saveLog (elapse False 999 ?s1) = saveLog initialApp" using T by simp
    then show ?thesis by (simp add: initialApp_def)
  qed
  have after: "saveLog (elapse False e ?s1) = [?w] \<and>
               db (elapse False e ?s1) = snd (saveNote ?w (Some emptyStore))"
    if "1000 \<le> e" for e
  proof -
    have "saveLog (elapse False e ?s1) = saveLog initialApp @ [?w] \<and>
          db (elapse False e ?s1) = snd (save_variant False ?w (db initialApp))"
      using T that unfolding w by blast
    then show ?thesis by (simp add: initialApp_def save_variant_def)
  qed
  show ?thesis
    using h1 wf_emptyStore h3 h4 h5 c l999 after[of 1000] after[of 5000] by simp
qed


section \<open>Properties of export\<close>

subsection \<open>Numbers\<close>

lemma unat_small: "n < 65536 \<Longrightarrow> unat (of_nat n :: js_char) = n"
  by (simp add: unat_of_nat)

lemma unat_digitChar: "d < 10 \<Longrightarrow> unat (digitChar d) = 48 + d"
proof -
  assume "d < 10"
  then have "48 + d < 65536" by simp
  from unat_small[OF this] show ?thesis unfolding digitChar_def .
qed

lemma isDigit_digitChar: "d < 10 \<Longrightarrow> isDigit (digitChar d)"
  by (simp add: isDigit_def unat_digitChar)

lemma decimal_digits: "list_all isDigit (decimal n)"
proof (induction n rule: decimal.induct)
  case (1 n)
  show ?case
  proof (cases "n < 10")
    case True
    then show ?thesis by (subst decimal.simps) (simp add: isDigit_digitChar)
  next
    case False
    then show ?thesis using 1 by (subst decimal.simps) (simp add: isDigit_digitChar)
  qed
qed

lemma decimal_nonempty: "decimal n \<noteq> []"
  by (subst decimal.simps) simp

lemma digitsValue_snoc: "digitsValue (ds @ [c]) = 10 * digitsValue ds + (unat c - 48)"
  by (simp add: digitsValue_def)

lemma digitsValue_decimal: "digitsValue (decimal n) = n"
proof (induction n rule: decimal.induct)
  case (1 n)
  show ?case
  proof (cases "n < 10")
    case True
    then show ?thesis
      by (subst decimal.simps) (simp add: digitsValue_def unat_digitChar)
  next
    case False
    then have "digitsValue (decimal (n div 10)) = n div 10" using 1 by simp
    then show ?thesis
      using False by (subst decimal.simps) (simp add: digitsValue_snoc unat_digitChar)
  qed
qed

lemma decimal_leading:
  "0 < n \<Longrightarrow> unat (hd (decimal n)) \<noteq> 48"
proof (induction n rule: decimal.induct)
  case (1 n)
  show ?case
  proof (cases "n < 10")
    case True
    then show ?thesis using "1.prems" by (subst decimal.simps) (simp add: unat_digitChar)
  next
    case False
    then have "unat (hd (decimal (n div 10))) \<noteq> 48" using 1 by simp
    then show ?thesis
      using False by (subst decimal.simps) (simp add: decimal_nonempty)
  qed
qed

lemma decimal_zero: "decimal 0 = [0x30]"
  by (subst decimal.simps) (simp add: digitChar_def)

lemma decimal_no_leading_zero: "\<not> (hd (decimal n) = 0x30 \<and> length (decimal n) > 1)"
proof (cases "n = 0")
  case True
  then show ?thesis by (simp add: decimal_zero)
next
  case False
  then have "unat (hd (decimal n)) \<noteq> 48" using decimal_leading by simp
  then show ?thesis by auto
qed

lemma parseNumber_decimal:
  assumes "endsNumber rest"
  shows "parseNumber (decimal n @ rest) = Some (n, rest)"
proof -
  have all: "\<forall>c \<in> set (decimal n). isDigit c"
    using decimal_digits[of n] by (simp add: list_all_iff)
  have stop: "takeWhile isDigit rest = []" "dropWhile isDigit rest = rest"
    using assms by (cases rest; simp add: endsNumber_def)+
  have tw: "takeWhile isDigit (decimal n @ rest) = decimal n"
    using all stop by (simp add: takeWhile_append2)
  have dw: "dropWhile isDigit (decimal n @ rest) = rest"
    using all stop by (simp add: dropWhile_append2)
  show ?thesis
    unfolding parseNumber_def Let_def tw dw
    using decimal_nonempty[of n] decimal_no_leading_zero[of n] digitsValue_decimal[of n]
    by simp
qed

subsection \<open>Strings\<close>

lemma unat_hexDigit: "d < 16 \<Longrightarrow> unat (hexDigit d) = (if d < 10 then 48 + d else 87 + d)"
proof -
  assume "d < 16"
  then have "48 + d < 65536" "87 + d < 65536" by simp_all
  from unat_small[OF this(1)] unat_small[OF this(2)] show ?thesis
    unfolding hexDigit_def by (cases "d < 10") (simp_all only: if_True if_False)
qed

lemma hexValue_hexDigit: "d < 16 \<Longrightarrow> hexValue (hexDigit d) = Some d"
  unfolding hexValue_def by (simp only: unat_hexDigit) simp

lemma hex_recompose:
  fixes n :: nat
  shows "4096 * (n div 4096) + 256 * (n div 256 mod 16) + 16 * (n div 16 mod 16) + n mod 16 = n"
proof -
  define a where "a = n div 16"
  define b where "b = n div 256"
  have b: "b = a div 16" unfolding a_def b_def by (simp add: div_mult2_eq[symmetric])
  have c: "n div 4096 = b div 16" unfolding b_def by (simp add: div_mult2_eq[symmetric])
  have e1: "n = 16 * a + n mod 16" unfolding a_def by simp
  have e2: "a = 16 * b + a mod 16" unfolding b by simp
  have e3: "b = 16 * (b div 16) + b mod 16" by simp
  have "4096 * (b div 16) + 256 * (b mod 16) + 16 * (a mod 16) + n mod 16 = n"
    using e1 e2 e3 by linarith
  then show ?thesis unfolding c a_def[symmetric] b_def[symmetric] .
qed

lemma hex4_unicodeEscape:
  "hex4 (hexDigit (unat c div 4096)) (hexDigit (unat c div 256 mod 16))
        (hexDigit (unat c div 16 mod 16)) (hexDigit (unat c mod 16)) = Some (c :: js_char)"
proof -
  let ?n = "unat c"
  have lt: "?n < 65536" using unsigned_less[of c] by simp
  then have d1: "?n div 4096 < 16" by simp
  have v: "hexValue (hexDigit (?n div 4096)) = Some (?n div 4096)"
      "hexValue (hexDigit (?n div 256 mod 16)) = Some (?n div 256 mod 16)"
      "hexValue (hexDigit (?n div 16 mod 16)) = Some (?n div 16 mod 16)"
      "hexValue (hexDigit (?n mod 16)) = Some (?n mod 16)"
    using d1 by (simp_all add: hexValue_hexDigit)
  show ?thesis
    unfolding hex4_def v by (simp only: prod.case option.case hex_recompose) simp
qed

lemma parseChars_plain:
  "c \<noteq> 0x22 \<Longrightarrow> c \<noteq> 0x5C \<Longrightarrow> \<not> unat c < 0x20 \<Longrightarrow>
   parseChars (c # r) = consResult c (parseChars r)"
  by simp

lemma parseChars_unicodeEscape:
  "parseChars (unicodeEscape c @ r) = consResult c (parseChars r)"
  unfolding unicodeEscape_def by (simp add: hex4_unicodeEscape)

lemma parseChars_quoteCodeUnit:
  "parseChars (quoteCodeUnit c @ r) = consResult c (parseChars r)"
proof -
  consider (short) "c = 0x08 \<or> c = 0x09 \<or> c = 0x0A \<or> c = 0x0C \<or> c = 0x0D \<or> c = 0x22 \<or> c = 0x5C"
    | (escaped) "\<not> (c = 0x08 \<or> c = 0x09 \<or> c = 0x0A \<or> c = 0x0C \<or> c = 0x0D \<or> c = 0x22 \<or> c = 0x5C)"
        "unat c < 0x20 \<or> isLeadSurrogate c \<or> isTrailSurrogate c"
    | (plain) "\<not> (c = 0x08 \<or> c = 0x09 \<or> c = 0x0A \<or> c = 0x0C \<or> c = 0x0D \<or> c = 0x22 \<or> c = 0x5C)"
        "\<not> (unat c < 0x20 \<or> isLeadSurrogate c \<or> isTrailSurrogate c)"
    by blast
  then show ?thesis
  proof cases
    case short
    then show ?thesis
      by (elim disjE) (simp_all add: quoteCodeUnit_def unescape_def)
  next
    case escaped
    then have "quoteCodeUnit c = unicodeEscape c" by (simp add: quoteCodeUnit_def)
    then show ?thesis by (simp only: parseChars_unicodeEscape)
  next
    case plain
    then have "quoteCodeUnit c = [c]" by (simp add: quoteCodeUnit_def)
    then show ?thesis using plain by simp
  qed
qed

lemma surrogate_plain:
  assumes "isLeadSurrogate c \<or> isTrailSurrogate c"
  shows "c \<noteq> 0x22" "c \<noteq> 0x5C" "\<not> unat c < 0x20"
  using assms by (auto simp: isLeadSurrogate_def isTrailSurrogate_def)

lemma parseChars_quoteBody:
  "parseChars (quoteBody s @ 0x22 # rest) = Some (s, rest)"
proof (induction s rule: quoteBody.induct)
  case 1
  show ?case by simp
next
  case (2 c)
  show ?case
    unfolding quoteBody.simps parseChars_quoteCodeUnit by (simp add: consResult_def)
next
  case (3 c d cs)
  show ?case
  proof (cases "isLeadSurrogate c \<and> isTrailSurrogate d")
    case True
    have pc: "c \<noteq> 0x22" "c \<noteq> 0x5C" "\<not> unat c < 0x20"
      using True surrogate_plain[of c] by blast+
    have pd: "d \<noteq> 0x22" "d \<noteq> 0x5C" "\<not> unat d < 0x20"
      using True surrogate_plain[of d] by blast+
    have "parseChars (c # d # quoteBody cs @ 0x22 # rest)
            = consResult c (consResult d (parseChars (quoteBody cs @ 0x22 # rest)))"
      by (simp only: parseChars_plain[OF pc] parseChars_plain[OF pd])
    moreover have "quoteBody (c # d # cs) = c # d # quoteBody cs" using True by simp
    ultimately show ?thesis using 3(1)[OF True] by (simp add: consResult_def)
  next
    case False
    have q: "quoteBody (c # d # cs) = quoteCodeUnit c @ quoteBody (d # cs)"
      using False by auto
    show ?thesis
      unfolding q append_assoc parseChars_quoteCodeUnit 3(2)[OF False]
      by (simp add: consResult_def)
  qed
qed

lemma parseChars_quoteJSONString:
  "parseChars (tl (quoteJSONString s) @ rest) = Some (s, rest)"
  "quoteJSONString s = 0x22 # tl (quoteJSONString s)"
  by (simp_all add: quoteJSONString_def parseChars_quoteBody)

subsection \<open>White space and what starts a value\<close>

lemma length_newline [simp]: "length (newline k) = Suc k"
  by (simp add: newline_def)

lemma skipWhite_newline [simp]: "skipWhite (newline k @ s) = skipWhite s"
proof -
  have "dropWhile isWhite (replicate k 0x20 @ s) = dropWhile isWhite s"
    by (rule dropWhile_append2) (simp add: isWhite_def)
  then show ?thesis by (simp add: skipWhite_def newline_def isWhite_def)
qed

lemma skipWhite_space [simp]: "skipWhite (0x20 # s) = skipWhite s"
  by (simp add: skipWhite_def isWhite_def)

lemma skipWhite_start: "\<not> isWhite c \<Longrightarrow> skipWhite (c # cs) = c # cs"
  by (simp add: skipWhite_def)

lemma endsNumber_simps [simp]:
  "endsNumber []" "endsNumber (newline k @ s)" "endsNumber (0x2C # s)"
  by (simp_all add: endsNumber_def newline_def isDigit_def)

lemma isDigit_not_special:
  assumes "isDigit c"
  shows "\<not> isWhite c" "c \<noteq> 0x5D" "c \<noteq> 0x7D" "c \<noteq> 0x22" "c \<noteq> 0x5B" "c \<noteq> 0x7B"
    "c \<noteq> 0x6E" "c \<noteq> 0x74" "c \<noteq> 0x66"
  using assms by (auto simp: isDigit_def isWhite_def)

lemma decimal_start: "\<exists>c cs. decimal n = c # cs \<and> isDigit c"
  using decimal_nonempty[of n] decimal_digits[of n] by (cases "decimal n") simp_all

lemma serialize_start:
  "\<exists>c cs. serialize k v = c # cs \<and> \<not> isWhite c \<and> c \<noteq> 0x5D \<and> c \<noteq> 0x7D"
proof (cases v)
  case (JNumber n)
  obtain c cs where "decimal n = c # cs" "isDigit c" using decimal_start by blast
  then show ?thesis using JNumber isDigit_not_special[of c] by (simp add: numberToString_def)
qed (simp_all add: js_def isWhite_def quoteJSONString_def)

lemma serializeElements_start:
  assumes "vs \<noteq> []"
  shows "\<exists>c cs. serializeElements k vs = c # cs \<and> \<not> isWhite c \<and> c \<noteq> 0x5D \<and> c \<noteq> 0x7D"
proof -
  obtain v ws where vs: "vs = v # ws" using assms by (cases vs) auto
  obtain c cs where c: "serialize k v = c # cs" "\<not> isWhite c" "c \<noteq> 0x5D" "c \<noteq> 0x7D"
    using serialize_start by blast
  show ?thesis unfolding vs using c by (cases ws) simp_all
qed

lemma serializeMembers_start:
  assumes "ms \<noteq> []"
  shows "\<exists>cs. serializeMembers k ms = 0x22 # cs"
proof -
  obtain m ns where ms: "ms = m # ns" using assms by (cases ms) auto
  show ?thesis unfolding ms by (cases ns) (simp_all add: quoteJSONString_def)
qed

subsection \<open>Parsing what was serialised\<close>

lemma pv_string:
  "parseValue (Suc f) (0x22 # cs) =
     (case parseChars cs of None \<Rightarrow> None | Some (str, rest) \<Rightarrow> Some (JString str, rest))"
  by simp

lemma pv_array_empty: "parseValue (Suc f) (0x5B # 0x5D # rest) = Some (JArray [], rest)"
  by (simp add: skipWhite_start isWhite_def)

lemma pv_object_empty: "parseValue (Suc f) (0x7B # 0x7D # rest) = Some (JObject [], rest)"
  by (simp add: skipWhite_start isWhite_def)

lemma pv_array:
  assumes "skipWhite cs = d # ds" "d \<noteq> 0x5D"
  shows "parseValue (Suc f) (0x5B # cs) =
     (case parseElements f (d # ds) of None \<Rightarrow> None | Some (vs, rest) \<Rightarrow> Some (JArray vs, rest))"
  using assms by simp

lemma pv_object:
  assumes "skipWhite cs = d # ds" "d \<noteq> 0x7D"
  shows "parseValue (Suc f) (0x7B # cs) =
     (case parseMembers f (d # ds) of None \<Rightarrow> None | Some (ms, rest) \<Rightarrow> Some (JObject ms, rest))"
  using assms by simp

lemma pv_number:
  assumes "isDigit c"
  shows "parseValue (Suc f) (c # cs) =
     (case parseNumber (c # cs) of None \<Rightarrow> None | Some (n, rest) \<Rightarrow> Some (JNumber n, rest))"
  using isDigit_not_special[OF assms] by simp

lemma pv_literals:
  "parseValue (Suc f) (js ''null'' @ rest) = Some (JNull, rest)"
  "parseValue (Suc f) (js ''true'' @ rest) = Some (JBool True, rest)"
  "parseValue (Suc f) (js ''false'' @ rest) = Some (JBool False, rest)"
  by (simp_all add: js_def)

lemma fuel_Suc: "0 < n \<Longrightarrow> n \<le> f \<Longrightarrow> \<exists>f'. f = Suc f'"
  by (cases f) simp_all

lemma serialize_length_pos: "0 < length (serialize k v)"
  using serialize_start[of k v] by auto

text \<open>
  Reading back what the serialiser wrote, at every indent and with any text after it
  that starts with what follows a value in a document: the reader returns the value and
  that text, given fuel for the size of the text of the value.
\<close>

lemma parse_serialize:
  "\<forall>f rest. length (serialize k v) \<le> f \<longrightarrow> endsNumber rest \<longrightarrow>
      parseValue f (serialize k v @ rest) = Some (v, rest)"
  "\<forall>f T rest. vs \<noteq> [] \<longrightarrow> length (serializeElements k vs) < f \<longrightarrow> endsNumber T \<longrightarrow>
      skipWhite T = 0x5D # rest \<longrightarrow>
      parseElements f (serializeElements k vs @ T) = Some (vs, rest)"
  "\<forall>f T rest. ms \<noteq> [] \<longrightarrow> length (serializeMembers k ms) < f \<longrightarrow> endsNumber T \<longrightarrow>
      skipWhite T = 0x7D # rest \<longrightarrow>
      parseMembers f (serializeMembers k ms @ T) = Some (ms, rest)"
proof (induction k v and k vs and k ms rule: serialize_serializeElements_serializeMembers.induct)
  case (1 k)
  show ?case
  proof (intro allI impI)
    fix f rest assume "length (serialize k JNull) \<le> f"
    then obtain f' where "f = Suc f'" using fuel_Suc[OF serialize_length_pos] by blast
    then show "parseValue f (serialize k JNull @ rest) = Some (JNull, rest)"
      by (simp only: serialize.simps pv_literals)
  qed
next
  case (2 k b)
  show ?case
  proof (intro allI impI)
    fix f rest assume "length (serialize k (JBool b)) \<le> f"
    then obtain f' where "f = Suc f'" using fuel_Suc[OF serialize_length_pos] by blast
    then show "parseValue f (serialize k (JBool b) @ rest) = Some (JBool b, rest)"
      by (cases b) (simp_all only: serialize.simps pv_literals if_True if_False)
  qed
next
  case (3 k n)
  show ?case
  proof (intro allI impI)
    fix f rest assume len: "length (serialize k (JNumber n)) \<le> f" and ends: "endsNumber rest"
    obtain f' where f: "f = Suc f'" using len fuel_Suc[OF serialize_length_pos] by blast
    obtain c cs where d: "decimal n = c # cs" "isDigit c" using decimal_start by blast
    have "parseValue (Suc f') (c # cs @ rest) =
            (case parseNumber (c # cs @ rest) of None \<Rightarrow> None
             | Some (n, rest) \<Rightarrow> Some (JNumber n, rest))"
      by (rule pv_number[OF d(2)])
    moreover have "parseNumber (c # cs @ rest) = Some (n, rest)"
      using parseNumber_decimal[OF ends, of n] d(1) by simp
    ultimately show "parseValue f (serialize k (JNumber n) @ rest) = Some (JNumber n, rest)"
      unfolding f by (simp add: numberToString_def d(1))
  qed
next
  case (4 k s)
  show ?case
  proof (intro allI impI)
    fix f rest assume "length (serialize k (JString s)) \<le> f"
    then obtain f' where f: "f = Suc f'" using fuel_Suc[OF serialize_length_pos] by blast
    have "serialize k (JString s) @ rest = 0x22 # (tl (quoteJSONString s) @ rest)"
      using parseChars_quoteJSONString(2)[of s] by (metis append_Cons serialize.simps(4))
    then show "parseValue f (serialize k (JString s) @ rest) = Some (JString s, rest)"
      unfolding f by (simp only: pv_string parseChars_quoteJSONString(1)) simp
  qed
next
  case (5 k vs)
  show ?case
  proof (intro allI impI)
    fix f rest assume len: "length (serialize k (JArray vs)) \<le> f"
    obtain f' where f: "f = Suc f'" using len fuel_Suc[OF serialize_length_pos] by blast
    show "parseValue f (serialize k (JArray vs) @ rest) = Some (JArray vs, rest)"
    proof (cases "vs = []")
      case True
      then have "serialize k (JArray vs) @ rest = 0x5B # 0x5D # rest" by (simp add: js_def)
      then show ?thesis unfolding f by (simp only: pv_array_empty True)
    next
      case False
      let ?E = "serializeElements (k + 2) vs"
      let ?T = "newline k @ 0x5D # rest"
      obtain c cs where c: "?E = c # cs" "\<not> isWhite c" "c \<noteq> 0x5D"
        using serializeElements_start[OF False] by blast
      have doc: "serialize k (JArray vs) @ rest = 0x5B # (newline (k + 2) @ ?E @ ?T)"
        using False by simp
      have skip: "skipWhite (newline (k + 2) @ ?E @ ?T) = c # (cs @ ?T)"
        using c(1,2) by (simp add: skipWhite_start)
      have lenE: "length ?E < f'" using len False unfolding f by simp
      have T: "endsNumber ?T" "skipWhite ?T = 0x5D # rest"
        by (simp_all add: skipWhite_start isWhite_def)
      have "parseElements f' (?E @ ?T) = Some (vs, rest)"
        using 5 False lenE T by blast
      then have "parseElements f' (c # (cs @ ?T)) = Some (vs, rest)" using c(1) by simp
      then show ?thesis
        unfolding f doc pv_array[OF skip c(3)] by simp
    qed
  qed
next
  case (6 k ms)
  show ?case
  proof (intro allI impI)
    fix f rest assume len: "length (serialize k (JObject ms)) \<le> f"
    obtain f' where f: "f = Suc f'" using len fuel_Suc[OF serialize_length_pos] by blast
    show "parseValue f (serialize k (JObject ms) @ rest) = Some (JObject ms, rest)"
    proof (cases "ms = []")
      case True
      then have "serialize k (JObject ms) @ rest = 0x7B # 0x7D # rest" by (simp add: js_def)
      then show ?thesis unfolding f by (simp only: pv_object_empty True)
    next
      case False
      let ?E = "serializeMembers (k + 2) ms"
      let ?T = "newline k @ 0x7D # rest"
      obtain cs where c: "?E = 0x22 # cs"
        using serializeMembers_start[OF False] by blast
      have doc: "serialize k (JObject ms) @ rest = 0x7B # (newline (k + 2) @ ?E @ ?T)"
        using False by simp
      have skip: "skipWhite (newline (k + 2) @ ?E @ ?T) = 0x22 # (cs @ ?T)"
        using c by (simp add: skipWhite_start isWhite_def)
      have lenE: "length ?E < f'" using len False unfolding f by simp
      have T: "endsNumber ?T" "skipWhite ?T = 0x7D # rest"
        by (simp_all add: skipWhite_start isWhite_def)
      have "parseMembers f' (?E @ ?T) = Some (ms, rest)"
        using 6 False lenE T by blast
      then have "parseMembers f' (0x22 # (cs @ ?T)) = Some (ms, rest)" using c by simp
      then show ?thesis
        unfolding f doc by (subst pv_object[OF skip]) simp_all
    qed
  qed
next
  case (7 k)
  show ?case by simp
next
  case (8 k v)
  show ?case
  proof (intro allI impI)
    fix f T rest
    assume len: "length (serializeElements k [v]) < f" and ends: "endsNumber T"
      and close: "skipWhite T = 0x5D # rest"
    obtain f' where f: "f = Suc f'" using len by (cases f) simp_all
    have "parseValue f' (serialize k v @ T) = Some (v, T)"
      using 8 len ends unfolding f by simp
    then show "parseElements f (serializeElements k [v] @ T) = Some ([v], rest)"
      unfolding f using close by simp
  qed
next
  case (9 k v w vs)
  show ?case
  proof (intro allI impI)
    fix f T rest
    assume len: "length (serializeElements k (v # w # vs)) < f" and ends: "endsNumber T"
      and close: "skipWhite T = 0x5D # rest"
    obtain f' where f: "f = Suc f'" using len by (cases f) simp_all
    let ?E = "serializeElements k (w # vs)"
    let ?R = "0x2C # (newline k @ ?E @ T)"
    have doc: "serializeElements k (v # w # vs) @ T = serialize k v @ ?R" by simp
    have lens: "length (serialize k v) \<le> f'" "length ?E < f'"
      using len serialize_length_pos[of k v] unfolding f by simp_all
    have first: "parseValue f' (serialize k v @ ?R) = Some (v, ?R)"
      using 9(1) lens(1) by simp
    obtain c cs where c: "?E = c # cs" "\<not> isWhite c"
      using serializeElements_start[of "w # vs" k] by auto
    have skipR: "skipWhite ?R = ?R" by (simp add: skipWhite_start isWhite_def)
    have skipE: "skipWhite (?E @ T) = ?E @ T"
      using c by (simp add: skipWhite_start)
    have more: "parseElements f' (?E @ T) = Some (w # vs, rest)"
      using 9(2) lens(2) ends close by blast
    show "parseElements f (serializeElements k (v # w # vs) @ T) = Some (v # w # vs, rest)"
      unfolding f doc parseElements.simps first
      by (simp add: skipR skipE more consResult_def)
  qed
next
  case (10 k)
  show ?case by simp
next
  case (11 k m)
  show ?case
  proof (intro allI impI)
    fix f T rest
    assume len: "length (serializeMembers k [m]) < f" and ends: "endsNumber T"
      and close: "skipWhite T = 0x7D # rest"
    obtain f' where f: "f = Suc f'" using len by (cases f) simp_all
    let ?A = "0x3A # 0x20 # (serialize k (snd m) @ T)"
    have doc: "serializeMembers k [m] @ T = 0x22 # (tl (quoteJSONString (fst m)) @ ?A)"
      using parseChars_quoteJSONString(2)[of "fst m"] by (simp add: quoteJSONString_def)
    have key: "parseChars (tl (quoteJSONString (fst m)) @ ?A) = Some (fst m, ?A)"
      by (rule parseChars_quoteJSONString(1))
    have skipA: "skipWhite ?A = ?A" by (simp add: skipWhite_start isWhite_def)
    obtain c cs where c: "serialize k (snd m) = c # cs" "\<not> isWhite c"
      using serialize_start by blast
    have skipV: "skipWhite (serialize k (snd m) @ T) = serialize k (snd m) @ T"
      using c by (simp add: skipWhite_start)
    have lens: "length (serialize k (snd m)) \<le> f'" using len unfolding f by simp
    have val: "parseValue f' (serialize k (snd m) @ T) = Some (snd m, T)"
      using 11 lens ends by simp
    show "parseMembers f (serializeMembers k [m] @ T) = Some ([m], rest)"
      unfolding f doc parseMembers.simps
      by (simp add: key skipA skipV val close)
  qed
next
  case (12 k m m' ms)
  show ?case
  proof (intro allI impI)
    fix f T rest
    assume len: "length (serializeMembers k (m # m' # ms)) < f" and ends: "endsNumber T"
      and close: "skipWhite T = 0x7D # rest"
    obtain f' where f: "f = Suc f'" using len by (cases f) simp_all
    let ?E = "serializeMembers k (m' # ms)"
    let ?R = "0x2C # (newline k @ ?E @ T)"
    let ?A = "0x3A # 0x20 # (serialize k (snd m) @ ?R)"
    have doc: "serializeMembers k (m # m' # ms) @ T = 0x22 # (tl (quoteJSONString (fst m)) @ ?A)"
      using parseChars_quoteJSONString(2)[of "fst m"] by (simp add: quoteJSONString_def)
    have key: "parseChars (tl (quoteJSONString (fst m)) @ ?A) = Some (fst m, ?A)"
      by (rule parseChars_quoteJSONString(1))
    have skipA: "skipWhite ?A = ?A" by (simp add: skipWhite_start isWhite_def)
    obtain c cs where c: "serialize k (snd m) = c # cs" "\<not> isWhite c"
      using serialize_start by blast
    have skipV: "skipWhite (serialize k (snd m) @ ?R) = serialize k (snd m) @ ?R"
      using c by (simp add: skipWhite_start)
    have lens: "length (serialize k (snd m)) \<le> f'" "length ?E < f'"
      using len unfolding f by simp_all
    have val: "parseValue f' (serialize k (snd m) @ ?R) = Some (snd m, ?R)"
      using 12(1) lens(1) by simp
    have skipR: "skipWhite ?R = ?R" by (simp add: skipWhite_start isWhite_def)
    obtain cs' where q: "?E = 0x22 # cs'" using serializeMembers_start[of "m' # ms" k] by auto
    have skipE: "skipWhite (?E @ T) = ?E @ T"
      using q by (simp add: skipWhite_start isWhite_def)
    have more: "parseMembers f' (?E @ T) = Some (m' # ms, rest)"
      using 12(2) lens(2) ends close by blast
    show "parseMembers f (serializeMembers k (m # m' # ms) @ T) = Some (m # m' # ms, rest)"
      unfolding f doc parseMembers.simps
      by (simp add: key skipA skipV val skipR skipE more consResult_def)
  qed
qed

text \<open>
  \<open>JSON.parse(JSON.stringify(v, null, 2))\<close> is \<open>v\<close> for every value of the model,
  with the fuel \<open>JSON_parse\<close> gives itself.
\<close>

lemma JSON_parse_stringify: "JSON_parse (JSON_stringify v) = Some v"
proof -
  obtain c cs where c: "serialize 0 v = c # cs" "\<not> isWhite c"
    using serialize_start by blast
  have "parseValue (length (serialize 0 v)) (serialize 0 v @ []) = Some (v, [])"
    using parse_serialize(1)[of 0 v, rule_format, of "length (serialize 0 v)" "[]"] by simp
  then show ?thesis
    unfolding JSON_parse_def JSON_stringify_def
    using c by (simp add: skipWhite_start skipWhite_def)
qed

subsection \<open>Claim C9: the exported document read back\<close>

lemma jsonStrings_map: "jsonStrings (map JString ss) = Some ss"
  by (induction ss) simp_all

lemma note_keys_differ:
  "js ''title'' \<noteq> js ''text''"
  "js ''title'' \<noteq> js ''summary''"
  "js ''title'' \<noteq> js ''language''"
  "js ''title'' \<noteq> js ''timestamp''"
  "js ''title'' \<noteq> js ''tags''"
  "js ''title'' \<noteq> js ''id''"
  "js ''text'' \<noteq> js ''title''"
  "js ''text'' \<noteq> js ''summary''"
  "js ''text'' \<noteq> js ''language''"
  "js ''text'' \<noteq> js ''timestamp''"
  "js ''text'' \<noteq> js ''tags''"
  "js ''text'' \<noteq> js ''id''"
  "js ''summary'' \<noteq> js ''title''"
  "js ''summary'' \<noteq> js ''text''"
  "js ''summary'' \<noteq> js ''language''"
  "js ''summary'' \<noteq> js ''timestamp''"
  "js ''summary'' \<noteq> js ''tags''"
  "js ''summary'' \<noteq> js ''id''"
  "js ''language'' \<noteq> js ''title''"
  "js ''language'' \<noteq> js ''text''"
  "js ''language'' \<noteq> js ''summary''"
  "js ''language'' \<noteq> js ''timestamp''"
  "js ''language'' \<noteq> js ''tags''"
  "js ''language'' \<noteq> js ''id''"
  "js ''timestamp'' \<noteq> js ''title''"
  "js ''timestamp'' \<noteq> js ''text''"
  "js ''timestamp'' \<noteq> js ''summary''"
  "js ''timestamp'' \<noteq> js ''language''"
  "js ''timestamp'' \<noteq> js ''tags''"
  "js ''timestamp'' \<noteq> js ''id''"
  "js ''tags'' \<noteq> js ''title''"
  "js ''tags'' \<noteq> js ''text''"
  "js ''tags'' \<noteq> js ''summary''"
  "js ''tags'' \<noteq> js ''language''"
  "js ''tags'' \<noteq> js ''timestamp''"
  "js ''tags'' \<noteq> js ''id''"
  "js ''id'' \<noteq> js ''title''"
  "js ''id'' \<noteq> js ''text''"
  "js ''id'' \<noteq> js ''summary''"
  "js ''id'' \<noteq> js ''language''"
  "js ''id'' \<noteq> js ''timestamp''"
  "js ''id'' \<noteq> js ''tags''"
  by (simp_all add: js_def)

lemma property_distinct:
  "distinct (map fst ms) \<Longrightarrow> property ms k = map_of ms k"
proof (induction ms)
  case Nil
  then show ?case by (simp add: property_def)
next
  case (Cons m ms)
  obtain a b where m: "m = (a, b)" by (cases m)
  have absent: "map_of ms a = None"
    using Cons.prems by (simp add: m map_of_eq_None_iff)
  have IH: "map_of (rev ms) k = map_of ms k"
    using Cons by (simp add: property_def)
  show ?case
    using absent IH by (simp add: property_def m map_of_append map_add_def split: option.splits)
qed

lemma noteToJson_members:
  "\<exists>ms. noteToJson n = JObject ms \<and> distinct (map fst ms) \<and>
        map_of ms (js ''title'') = Some (JString (title n)) \<and>
        map_of ms (js ''text'') = Some (JString (note_text n)) \<and>
        map_of ms (js ''language'') = Some (JString (language n)) \<and>
        map_of ms (js ''timestamp'') = Some (JNumber (timestamp n)) \<and>
        map_of ms (js ''tags'') = Some (JArray (map JString (tags n))) \<and>
        map_of ms (js ''id'') = map_option JNumber (note_id n) \<and>
        map_of ms (js ''summary'') =
          (case summary n of Undefined \<Rightarrow> None | Null \<Rightarrow> Some JNull | Str s \<Rightarrow> Some (JString s))"
  by (cases "summary n"; cases "note_id n") (simp_all add: noteToJson_def note_keys_differ)

lemma noteOfJson_noteToJson: "noteOfJson (noteToJson n) = Some n"
proof -
  obtain ms where ms: "noteToJson n = JObject ms" and d: "distinct (map fst ms)"
    and f: "map_of ms (js ''title'') = Some (JString (title n))"
        "map_of ms (js ''text'') = Some (JString (note_text n))"
        "map_of ms (js ''language'') = Some (JString (language n))"
        "map_of ms (js ''timestamp'') = Some (JNumber (timestamp n))"
        "map_of ms (js ''tags'') = Some (JArray (map JString (tags n)))"
        "map_of ms (js ''id'') = map_option JNumber (note_id n)"
        "map_of ms (js ''summary'') =
          (case summary n of Undefined \<Rightarrow> None | Null \<Rightarrow> Some JNull | Str s \<Rightarrow> Some (JString s))"
    using noteToJson_members[of n] by blast
  have fields: "n = \<lparr>note_id = note_id n, title = title n, note_text = note_text n,
                     summary = summary n, language = language n, timestamp = timestamp n,
                     tags = tags n\<rparr>"
    by simp
  have "noteOfJson (JObject ms) =
          Some \<lparr>note_id = note_id n, title = title n, note_text = note_text n,
                summary = summary n, language = language n, timestamp = timestamp n,
                tags = tags n\<rparr>"
    by (cases "summary n"; cases "note_id n")
       (simp_all add: noteOfJson_def property_distinct[OF d] f jsonString_def jsonNumber_def
          jsonStrings_map)
  then show ?thesis unfolding ms using fields by simp
qed

lemma notesOfJsonList_map: "notesOfJsonList (map noteToJson ns) = Some ns"
  by (induction ns) (simp_all add: noteOfJson_noteToJson)

text \<open>
  C9. Whatever list of notes \<open>getAllNotes\<close> returns, with every timestamp and id below
  \<open>2^53\<close>: \<open>exportNotes\<close> offers \<open>JSON.stringify\<close> of that list, with nothing escaped on
  the way, or only reports that there are no notes when the list is empty; \<open>JSON.parse\<close>
  of that document succeeds and gives back the array of the notes' objects; and reading
  each object's properties gives every note as it is stored: the same title, text,
  language, timestamp and tags (and id and summary), in the same order. A title stored
  as \<open>Q&amp;A\<close> is read back as \<open>Q&amp;A\<close>.
\<close>

theorem export_then_parse_reproduces_notes:
  assumes listed: "getAllNotes d = Inr notes"
    and exact: "list_all (\<lambda>n. timestamp n < 2 ^ 53 \<and>
                              (case note_id n of None \<Rightarrow> True | Some k \<Rightarrow> k < 2 ^ 53)) notes"
    and doc: "doc = JSON_stringify (JArray (map noteToJson notes))"
  shows "exportNotes d = (if notes = [] then NoNotes else Exported doc) \<and>
         JSON_parse doc = Some (JArray (map noteToJson notes)) \<and>
         importNotes doc = Some notes"
proof (intro conjI)
  show "exportNotes d = (if notes = [] then NoNotes else Exported doc)"
    using listed by (simp add: exportNotes_def doc)
  show parsed: "JSON_parse doc = Some (JArray (map noteToJson notes))"
    unfolding doc by (rule JSON_parse_stringify)
  show "importNotes doc = Some notes"
    unfolding importNotes_def parsed by (simp add: notesOfJsonList_map)
qed

text \<open>
  C9 at the three notes listed after the hybrid variant has saved \<open>noteS\<close> into the
  store of two notes.
\<close>

theorem export_then_parse_reproduces_notes_witness:
  "getAllNotes (snd (saveNote_hybrid noteS (Some storeAB))) = Inr listedExample \<and>
   list_all (\<lambda>n. timestamp n < 2 ^ 53 \<and>
                   (case note_id n of None \<Rightarrow> True | Some k \<Rightarrow> k < 2 ^ 53)) listedExample \<and>
   listedExample \<noteq> [] \<and>
   exportNotes (snd (saveNote_hybrid noteS (Some storeAB)))
     = Exported (JSON_stringify (JArray (map noteToJson listedExample))) \<and>
   importNotes (JSON_stringify (JArray (map noteToJson listedExample))) = Some listedExample \<and>
   map title listedExample = [js ''Q&amp;A'', js ''B'', js ''A''] \<and>
   map timestamp listedExample = [4000, 2000, 1000]"
proof -
  have listed: "getAllNotes (snd (saveNote_hybrid noteS (Some storeAB))) = Inr listedExample"
    by (simp add: gateway_eval listedExample_def storeAB_def noteS_def noteA_def noteB_def)
  have exact: "list_all (\<lambda>n. timestamp n < 2 ^ 53 \<and>
                   (case note_id n of None \<Rightarrow> True | Some k \<Rightarrow> k < 2 ^ 53)) listedExample"
    by (simp add: listedExample_def sanitizedNote_def sanitizedNote_hybrid_def
          noteS_def noteA_def noteB_def)
  have some: "listedExample \<noteq> []" by (simp add: listedExample_def)
  note T = export_then_parse_reproduces_notes[OF listed exact refl]
  have fields: "map title listedExample = [js ''Q&amp;A'', js ''B'', js ''A'']"
      "map timestamp listedExample = [4000, 2000, 1000]"
    by (simp_all add: listedExample_def sanitizedNote_def sanitizedNote_hybrid_def
          sanitizeInput_def escapeCodeUnit_def noteS_def noteA_def noteB_def js_def)
  show ?thesis using listed exact some T fields by simp
qed


end
